theory Spec2Isabelle
  imports Main "HOL-Library.Log_Nat"
begin

section \<open>The JSONPath engine of json-path (src/index.ts)\<close>

text \<open>
  The engine is the five functions \<^verbatim>\<open>queryJsonPath\<close>, \<^verbatim>\<open>tokenize\<close>,
  \<^verbatim>\<open>applyToken\<close>, \<^verbatim>\<open>collectRecursive\<close> and \<^verbatim>\<open>evaluateFilter\<close> of
  \<^verbatim>\<open>src/index.ts\<close>. Each is embedded below under its own name, together with the
  parts of the JavaScript language they call: string scanning, \<^verbatim>\<open>parseInt\<close>,
  \<^verbatim>\<open>Number\<close>, the one regular expression of the filter, property lookup through the
  prototype chain, and arithmetic on IEEE doubles.
\<close>

subsection \<open>Strings and character classes\<close>

text \<open>
  A JavaScript string is a sequence of UTF-16 code units. The model is \<^typ>\<open>string\<close>: a
  \<^typ>\<open>char\<close> stands for the code unit of the same number, so the model covers the strings
  over U+0000 .. U+00FF. The character classes are those of ECMAScript restricted to
  that range: white space (\<^verbatim>\<open>\s\<close> of a regular expression, and what \<^verbatim>\<open>parseInt\<close>
  and \<^verbatim>\<open>Number\<close> trim) is TAB, LF, VT, FF, CR, SP and NBSP; a line terminator (what
  \<^verbatim>\<open>.\<close> of a regular expression refuses) is LF or CR.
\<close>

definition code_unit :: "char \<Rightarrow> nat" where
  "code_unit c = of_char c"

definition is_space :: "char \<Rightarrow> bool" where
  "is_space c = (code_unit c = 9 \<or> code_unit c = 10 \<or> code_unit c = 11 \<or> code_unit c = 12
     \<or> code_unit c = 13 \<or> code_unit c = 32 \<or> code_unit c = 160)"

definition is_line_terminator :: "char \<Rightarrow> bool" where
  "is_line_terminator c = (code_unit c = 10 \<or> code_unit c = 13)"

definition is_digit :: "char \<Rightarrow> bool" where
  "is_digit c = (48 \<le> code_unit c \<and> code_unit c \<le> 57)"

definition is_word :: "char \<Rightarrow> bool" where
  "is_word c = (is_digit c \<or> (65 \<le> code_unit c \<and> code_unit c \<le> 90)
     \<or> (97 \<le> code_unit c \<and> code_unit c \<le> 122) \<or> code_unit c = 95)"

definition is_quote :: "char \<Rightarrow> bool" where
  "is_quote c = (c = CHR 0x27 \<or> c = CHR 0x22)"

text \<open>\<^verbatim>\<open>s.replace(/['"]/g, "")\<close>: every quote character is deleted.\<close>

definition strip_quotes :: "string \<Rightarrow> string" where
  "strip_quotes s = filter (\<lambda>c. \<not> is_quote c) s"

text \<open>\<^verbatim>\<open>s.startsWith(p)\<close>.\<close>

fun starts_with :: "string \<Rightarrow> string \<Rightarrow> bool" where
  "starts_with s [] = True"
| "starts_with [] (p # ps) = False"
| "starts_with (c # cs) (p # ps) = (c = p \<and> starts_with cs ps)"

text \<open>The value of a string of decimal digits, most significant digit first.\<close>

definition digit_value :: "char \<Rightarrow> int" where
  "digit_value c = int (code_unit c) - 48"

definition digits_value :: "string \<Rightarrow> int" where
  "digits_value s = foldl (\<lambda>n c. 10 * n + digit_value c) 0 s"

subsection \<open>Numbers\<close>

text \<open>
  A Number is an IEEE 754 double. A finite double is modelled by its exact rational
  value; the two zeros are one value (the engine never tells them apart: \<^verbatim>\<open>===\<close>
  and the comparisons do not). NaN never occurs in a document and is rejected by
  \<^verbatim>\<open>evaluateFilter\<close> before use, so \<^verbatim>\<open>Number\<close> returns \<open>None\<close> for it.
\<close>

datatype number = Finite rat | PosInfinity | NegInfinity

fun number_less :: "number \<Rightarrow> number \<Rightarrow> bool" where
  "number_less (Finite a) (Finite b) = (a < b)"
| "number_less (Finite a) PosInfinity = True"
| "number_less (Finite a) NegInfinity = False"
| "number_less PosInfinity b = False"
| "number_less NegInfinity (Finite b) = True"
| "number_less NegInfinity PosInfinity = True"
| "number_less NegInfinity NegInfinity = False"

definition number_le :: "number \<Rightarrow> number \<Rightarrow> bool" where
  "number_le a b = (number_less a b \<or> a = b)"

text \<open>
  Rounding a real value to the nearest double, ties to the even significand
  (the default rounding of IEEE 754, which ECMAScript uses for every Number):
  the significand has 53 bits, the least exponent of the unit in the last place is
  \<open>-1074\<close>, and a rounded magnitude of \<open>2^1024\<close> or more overflows to an infinity.
\<close>

definition round_half_even :: "rat \<Rightarrow> int" where
  "round_half_even x =
     (let f = \<lfloor>x\<rfloor>; r = x - of_int f
      in if r < 1 / 2 then f else if 1 / 2 < r then f + 1 else if even f then f else f + 1)"

text \<open>\<open>floor_log2 a\<close> is the \<open>e\<close> with \<open>2^e \<le> a < 2^(e + 1)\<close>, for \<open>a > 0\<close>.\<close>

definition floor_log2 :: "rat \<Rightarrow> int" where
  "floor_log2 a =
     (case quotient_of a of (n, d) \<Rightarrow>
        (let k = bitlen n - bitlen d in if a < 2 powi k then k - 1 else k))"

definition round_double :: "rat \<Rightarrow> number" where
  "round_double q =
     (if q = 0 then Finite 0
      else
        (let a = \<bar>q\<bar>;
             p = max (floor_log2 a) (- 1022) - 52;
             v = of_int (round_half_even (a / 2 powi p)) * 2 powi p
         in if 2 powi 1024 \<le> v then (if q < 0 then NegInfinity else PosInfinity)
            else Finite (if q < 0 then - v else v)))"

text \<open>
  An integral Number: what \<^verbatim>\<open>parseInt\<close> returns, what \<^verbatim>\<open>input.length\<close> is, and
  what the index variable of the slice loop holds. \<open>IntVal n\<close> is the double whose value
  is the integer \<open>n\<close>. The sum of two integral doubles is an integral double, so the
  arithmetic of the loop stays inside this type.
\<close>

datatype intnum = NaN | IntVal int | PosInf | NegInf

text \<open>
  The nearest double of an integer. Every integer of magnitude below \<open>2^53\<close> is a
  double; a larger one is rounded to 53 significant bits, ties to even.
\<close>

definition round_int :: "int \<Rightarrow> intnum" where
  "round_int n =
     (let a = \<bar>n\<bar> in
      if a < 2 ^ 53 then IntVal n
      else
        (let k = nat (bitlen a) - 53;
             q = a div 2 ^ k;
             r = a mod 2 ^ k;
             h = 2 ^ (k - 1);
             m = (if r < h \<or> (r = h \<and> even q) then q else q + 1);
             v = m * 2 ^ k
         in if 2 ^ 1024 \<le> v then (if n < 0 then NegInf else PosInf)
            else IntVal (if n < 0 then - v else v)))"

text \<open>\<^verbatim>\<open>a + b\<close> (as in \<^verbatim>\<open>si += step\<close>).\<close>

fun intnum_add :: "intnum \<Rightarrow> intnum \<Rightarrow> intnum" where
  "intnum_add (IntVal a) (IntVal b) = round_int (a + b)"
| "intnum_add NaN b = NaN"
| "intnum_add a NaN = NaN"
| "intnum_add PosInf NegInf = NaN"
| "intnum_add NegInf PosInf = NaN"
| "intnum_add PosInf b = PosInf"
| "intnum_add a PosInf = PosInf"
| "intnum_add NegInf b = NegInf"
| "intnum_add a NegInf = NegInf"

text \<open>\<^verbatim>\<open>a < b\<close>: false as soon as one side is NaN.\<close>

fun intnum_less :: "intnum \<Rightarrow> intnum \<Rightarrow> bool" where
  "intnum_less (IntVal a) (IntVal b) = (a < b)"
| "intnum_less NaN b = False"
| "intnum_less a NaN = False"
| "intnum_less PosInf b = False"
| "intnum_less a NegInf = False"
| "intnum_less NegInf b = True"
| "intnum_less a PosInf = True"

text \<open>\<^verbatim>\<open>a >= 0\<close>.\<close>

fun intnum_nonneg :: "intnum \<Rightarrow> bool" where
  "intnum_nonneg (IntVal a) = (0 \<le> a)"
| "intnum_nonneg PosInf = True"
| "intnum_nonneg NaN = False"
| "intnum_nonneg NegInf = False"

text \<open>
  \<^verbatim>\<open>parseInt(s, 10)\<close>: leading white space is dropped, then an optional sign, then
  the longest run of decimal digits is read and whatever follows is ignored. No digit
  gives NaN. With the radix given as 10 no \<^verbatim>\<open>0x\<close> prefix is recognised.
\<close>

definition parseInt :: "string \<Rightarrow> intnum" where
  "parseInt s =
     (let t = dropWhile is_space s;
          negative = (t \<noteq> [] \<and> hd t = CHR ''-'');
          u = (if t \<noteq> [] \<and> (hd t = CHR ''+'' \<or> hd t = CHR ''-'') then tl t else t);
          z = takeWhile is_digit u
      in if z = [] then NaN
         else round_int (if negative then - digits_value z else digits_value z))"

text \<open>
  \<^verbatim>\<open>Number(s)\<close> on a string (StringToNumber): white space is trimmed on both sides;
  the empty string is 0; otherwise the whole text must be a binary, octal or
  hexadecimal integer literal (\<^verbatim>\<open>0b\<close>, \<^verbatim>\<open>0o\<close>, \<^verbatim>\<open>0x\<close>, unsigned), or an optionally
  signed \<^verbatim>\<open>Infinity\<close>, or an optionally signed decimal literal with an optional
  fraction and exponent. Anything else is NaN, here \<open>None\<close>.
\<close>

definition trim :: "string \<Rightarrow> string" where
  "trim s = rev (dropWhile is_space (rev (dropWhile is_space s)))"

definition hex_digit_value :: "char \<Rightarrow> int option" where
  "hex_digit_value c =
     (let n = int (code_unit c) in
      if 48 \<le> n \<and> n \<le> 57 then Some (n - 48)
      else if 65 \<le> n \<and> n \<le> 70 then Some (n - 55)
      else if 97 \<le> n \<and> n \<le> 102 then Some (n - 87)
      else None)"

text \<open>The digits of a literal in base \<open>b\<close>: at least one, each below \<open>b\<close>.\<close>

fun radix_value :: "int \<Rightarrow> int \<Rightarrow> string \<Rightarrow> int option" where
  "radix_value b n [] = Some n"
| "radix_value b n (c # cs) =
     (case hex_digit_value c of
        None \<Rightarrow> None
      | Some d \<Rightarrow> if d < b then radix_value b (b * n + d) cs else None)"

definition radix_literal :: "int \<Rightarrow> string \<Rightarrow> number option" where
  "radix_literal b ds =
     (if ds = [] then None
      else map_option (\<lambda>n. round_double (of_int n)) (radix_value b 0 ds))"

text \<open>
  The exponent part after the fraction: nothing (exponent 0), or \<^verbatim>\<open>e\<close> / \<^verbatim>\<open>E\<close>, an
  optional sign and at least one digit, up to the end of the text.
\<close>

definition exponent_part :: "string \<Rightarrow> int option" where
  "exponent_part s =
     (case s of
        [] \<Rightarrow> Some 0
      | c # cs \<Rightarrow>
          if c = CHR ''e'' \<or> c = CHR ''E'' then
            (let negative = (cs \<noteq> [] \<and> hd cs = CHR ''-'');
                 ds = (if cs \<noteq> [] \<and> (hd cs = CHR ''+'' \<or> hd cs = CHR ''-'') then tl cs else cs)
             in if ds \<noteq> [] \<and> list_all is_digit ds
                then Some (if negative then - digits_value ds else digits_value ds)
                else None)
          else None)"

definition unsigned_decimal :: "string \<Rightarrow> rat option" where
  "unsigned_decimal s =
     (let ip = takeWhile is_digit s;
          r1 = dropWhile is_digit s;
          dot = (r1 \<noteq> [] \<and> hd r1 = CHR ''.'');
          fp = (if dot then takeWhile is_digit (tl r1) else []);
          r2 = (if dot then dropWhile is_digit (tl r1) else r1)
      in if ip = [] \<and> fp = [] then None
         else map_option
                (\<lambda>e. of_int (digits_value (ip @ fp)) * 10 powi (e - int (length fp)))
                (exponent_part r2))"

definition js_Number :: "string \<Rightarrow> number option" where
  "js_Number s =
     (let t = trim s in
      if t = [] then Some (Finite 0)
      else if starts_with t ''0x'' \<or> starts_with t ''0X'' then radix_literal 16 (drop 2 t)
      else if starts_with t ''0o'' \<or> starts_with t ''0O'' then radix_literal 8 (drop 2 t)
      else if starts_with t ''0b'' \<or> starts_with t ''0B'' then radix_literal 2 (drop 2 t)
      else
        (let negative = (hd t = CHR ''-'');
             u = (if hd t = CHR ''+'' \<or> hd t = CHR ''-'' then tl t else t)
         in if u = ''Infinity'' then Some (if negative then NegInfinity else PosInfinity)
            else map_option (\<lambda>v. round_double (if negative then - v else v))
                   (unsigned_decimal u)))"

subsection \<open>Values\<close>

text \<open>
  \<^verbatim>\<open>JsonValue\<close> is what \<^verbatim>\<open>JSON.parse\<close> builds: null, a boolean, a Number, a
  string, an array, or an object. An object is the list of its own properties in
  the order in which \<^verbatim>\<open>Object.values\<close> enumerates them, each key once.

  Every parsed object inherits from \<^verbatim>\<open>Object.prototype\<close>, and the engine reads
  properties with \<^verbatim>\<open>record[key]\<close> and \<^verbatim>\<open>key in record\<close>, which both follow the
  prototype chain. So a lookup can return a value that is no \<^verbatim>\<open>JsonValue\<close>: one of the
  built-in functions of \<^verbatim>\<open>Object.prototype\<close> (\<open>JFunction\<close>, named by the property that
  holds it) or, under the key \<^verbatim>\<open>__proto__\<close>, \<^verbatim>\<open>Object.prototype\<close> itself
  (\<open>JObjectPrototype\<close>). The engine then treats these as it treats any input.
\<close>

datatype jsval =
    JNull
  | JBool bool
  | JNum number
  | JStr string
  | JArr "jsval list"
  | JObj "(string \<times> jsval) list"
  | JFunction string
  | JObjectPrototype

text \<open>The function-valued own properties of \<^verbatim>\<open>Object.prototype\<close>.\<close>

definition prototype_functions :: "string list" where
  "prototype_functions =
     [''constructor'', ''__defineGetter__'', ''__defineSetter__'', ''hasOwnProperty'',
      ''__lookupGetter__'', ''__lookupSetter__'', ''isPrototypeOf'',
      ''propertyIsEnumerable'', ''toString'', ''valueOf'', ''toLocaleString'']"

text \<open>
  \<^verbatim>\<open>Object.prototype[key]\<close>, read on behalf of the object \<open>receiver\<close>: the accessor
  \<^verbatim>\<open>__proto__\<close> returns the prototype of the receiver, which is \<^verbatim>\<open>Object.prototype\<close>
  for a parsed object and null for \<^verbatim>\<open>Object.prototype\<close> itself. \<open>None\<close> is
  \<^verbatim>\<open>undefined\<close>.
\<close>

definition prototype_get :: "jsval \<Rightarrow> string \<Rightarrow> jsval option" where
  "prototype_get receiver key =
     (if key = ''__proto__'' then Some receiver
      else if key \<in> set prototype_functions then Some (JFunction key)
      else None)"

text \<open>\<^verbatim>\<open>record[key]\<close> for an object \<open>record\<close>; \<open>None\<close> is \<^verbatim>\<open>undefined\<close>.\<close>

fun get_property :: "jsval \<Rightarrow> string \<Rightarrow> jsval option" where
  "get_property (JObj kvs) key =
     (case map_of kvs key of
        Some v \<Rightarrow> Some v
      | None \<Rightarrow> prototype_get JObjectPrototype key)"
| "get_property JObjectPrototype key = prototype_get JNull key"
| "get_property _ key = None"

text \<open>\<^verbatim>\<open>key in record\<close> for an object \<open>record\<close>.\<close>

fun has_property :: "jsval \<Rightarrow> string \<Rightarrow> bool" where
  "has_property (JObj kvs) key =
     (map_of kvs key \<noteq> None \<or> key = ''__proto__'' \<or> key \<in> set prototype_functions)"
| "has_property JObjectPrototype key =
     (key = ''__proto__'' \<or> key \<in> set prototype_functions)"
| "has_property _ key = False"

text \<open>
  \<^verbatim>\<open>Object.values(record)\<close>: the values of the own enumerable properties. The
  properties of \<^verbatim>\<open>Object.prototype\<close> are not enumerable.
\<close>

fun object_values :: "jsval \<Rightarrow> jsval list" where
  "object_values (JObj kvs) = map snd kvs"
| "object_values _ = []"

text \<open>\<^verbatim>\<open>v !== null && typeof v === "object" && !Array.isArray(v)\<close>.\<close>

fun is_plain_object :: "jsval \<Rightarrow> bool" where
  "is_plain_object (JObj kvs) = True"
| "is_plain_object JObjectPrototype = True"
| "is_plain_object _ = False"

subsection \<open>Tokens and the tokenizer (\<^verbatim>\<open>tokenize\<close>, lines 95--154)\<close>

datatype token_type = TProperty | TIndex | TWildcard | TRecursive | TFilter | TSlice

record token =
  ttype :: token_type
  tvalue :: string

text \<open>
  The loop of lines 105--108 and 117--120: characters are appended to \<open>prop\<close> up to
  the next \<^verbatim>\<open>.\<close> or \<^verbatim>\<open>[\<close> or the end. The result is the name and the rest of
  the input.
\<close>

fun read_prop :: "string \<Rightarrow> string \<Rightarrow> string \<times> string" where
  "read_prop prop [] = (prop, [])"
| "read_prop prop (c # cs) =
     (if c \<noteq> CHR ''.'' \<and> c \<noteq> CHR ''['' then read_prop (prop @ [c]) cs
      else (prop, c # cs))"

text \<open>
  The loop of lines 128--133: the scan runs while input is left and \<open>depth > 0\<close>;
  a \<^verbatim>\<open>[\<close> raises the depth, a \<^verbatim>\<open>]\<close> lowers it, and the character is kept unless
  it brought the depth to 0.
\<close>

fun read_bracket :: "nat \<Rightarrow> string \<Rightarrow> string \<Rightarrow> string \<times> string" where
  "read_bracket depth content [] = (content, [])"
| "read_bracket depth content (c # cs) =
     (if 0 < depth then
        (let depth1 = (if c = CHR ''['' then depth + 1 else depth);
             depth2 = (if c = CHR '']'' then depth1 - 1 else depth1)
         in read_bracket depth2 (if 0 < depth2 then content @ [c] else content) cs)
      else (content, c # cs))"

text \<open>Lines 135--147: the token of a bracket's content.\<close>

definition bracket_token :: "string \<Rightarrow> token" where
  "bracket_token content =
     (if content = ''*'' then \<lparr>ttype = TWildcard, tvalue = ''*''\<rparr>
      else if starts_with content ''?'' then \<lparr>ttype = TFilter, tvalue = tl content\<rparr>
      else if CHR '':'' \<in> set content then \<lparr>ttype = TSlice, tvalue = content\<rparr>
      else if content \<noteq> [] \<and> list_all is_digit content
        then \<lparr>ttype = TIndex, tvalue = content\<rparr>
      else \<lparr>ttype = TProperty, tvalue = strip_quotes content\<rparr>)"

lemma read_prop_length: "length (snd (read_prop name s)) \<le> length s"
  by (induction s arbitrary: name) (auto simp: le_SucI)

lemma read_bracket_length: "length (snd (read_bracket depth content s)) \<le> length s"
  by (induction s arbitrary: depth content) (auto simp: Let_def le_SucI)

text \<open>
  The main loop (lines 99--151). The state is the token list built so far and the
  input from position \<open>i\<close> on; reading past the end gives \<^verbatim>\<open>undefined\<close>, which
  equals no character.
\<close>

function tokenize_loop :: "token list \<Rightarrow> string \<Rightarrow> token list" where
  "tokenize_loop tokens [] = tokens"
| "tokenize_loop tokens (c # cs) =
     (if c = CHR ''.'' then
        (if cs \<noteq> [] \<and> hd cs = CHR ''.'' then
           tokenize_loop
             (tokens @ [\<lparr>ttype = TRecursive, tvalue = fst (read_prop [] (tl cs))\<rparr>])
             (snd (read_prop [] (tl cs)))
         else if cs \<noteq> [] \<and> hd cs = CHR ''*'' then
           tokenize_loop (tokens @ [\<lparr>ttype = TWildcard, tvalue = ''*''\<rparr>]) (tl cs)
         else
           tokenize_loop
             (if fst (read_prop [] cs) \<noteq> []
              then tokens @ [\<lparr>ttype = TProperty, tvalue = fst (read_prop [] cs)\<rparr>]
              else tokens)
             (snd (read_prop [] cs)))
      else if c = CHR ''['' then
        tokenize_loop (tokens @ [bracket_token (fst (read_bracket 1 [] cs))])
          (snd (read_bracket 1 [] cs))
      else tokenize_loop tokens cs)"
  by pat_completeness auto
termination
proof (relation "measure (\<lambda>(tokens, s). length s)")
  show "wf (measure (\<lambda>(tokens, s). length s))" by simp
next
  fix tokens :: "token list" and c :: char and cs :: string
  assume "cs \<noteq> [] \<and> hd cs = CHR ''.''"
  then have "length (tl cs) < length cs" by (cases cs) auto
  with read_prop_length[of "[]" "tl cs"]
  show "((tokens @ [\<lparr>ttype = TRecursive, tvalue = fst (read_prop [] (tl cs))\<rparr>],
          snd (read_prop [] (tl cs))), (tokens, c # cs)) \<in> measure (\<lambda>(tokens, s). length s)"
    by simp
next
  fix tokens :: "token list" and c :: char and cs :: string
  assume "cs \<noteq> [] \<and> hd cs = CHR ''*''"
  then show "((tokens @ [\<lparr>ttype = TWildcard, tvalue = ''*''\<rparr>], tl cs), (tokens, c # cs))
      \<in> measure (\<lambda>(tokens, s). length s)"
    by (cases cs) auto
next
  fix tokens :: "token list" and c :: char and cs :: string
  show "((if fst (read_prop [] cs) \<noteq> []
          then tokens @ [\<lparr>ttype = TProperty, tvalue = fst (read_prop [] cs)\<rparr>] else tokens,
          snd (read_prop [] cs)), (tokens, c # cs)) \<in> measure (\<lambda>(tokens, s). length s)"
    using read_prop_length[of "[]" cs] by simp
next
  fix tokens :: "token list" and c :: char and cs :: string
  show "((tokens @ [bracket_token (fst (read_bracket 1 [] cs))], snd (read_bracket 1 [] cs)),
          (tokens, c # cs)) \<in> measure (\<lambda>(tokens, s). length s)"
    using read_bracket_length[of 1 "[]" cs] by simp
next
  fix tokens :: "token list" and c :: char and cs :: string
  show "((tokens, cs), (tokens, c # cs)) \<in> measure (\<lambda>(tokens, s). length s)" by simp
qed

definition tokenize :: "string \<Rightarrow> token list" where
  "tokenize expr = tokenize_loop [] expr"

subsection \<open>The filter interpreter (\<^verbatim>\<open>evaluateFilter\<close>, lines 230--266)\<close>

text \<open>
  Line 232 matches the filter source against the regular expression
  \<^verbatim>\<open>^\(?\s*@\.(\w+)\s*(==|!=|>=|<=|>|<)\s*(.+?)\s*\)?$\<close>
  and takes the three groups: field, operator and raw value. The matcher below follows
  the backtracking order of ECMAScript.

  Up to the operator nothing can be matched in two ways: \<^verbatim>\<open>\(?\<close> takes the
  parenthesis when there is one (without it the next character would have to be white
  space or \<^verbatim>\<open>@\<close>), each \<^verbatim>\<open>\s*\<close> and the \<^verbatim>\<open>\w+\<close> take their whole run (what
  follows them is of another character class). From the operator on the order matters:
  the alternatives are tried from left to right, and a later one is tried when the rest
  of the pattern fails after an earlier one; the \<^verbatim>\<open>\s*\<close> before the raw value first
  takes all the white space and then gives it back one character at a time; the raw
  value \<^verbatim>\<open>(.+?)\<close> is the shortest run of characters other than line terminators
  after which only white space and an optional \<^verbatim>\<open>)\<close> are left.
\<close>

text \<open>\<^verbatim>\<open>\s*\)?$\<close> matches the whole of \<open>u\<close>.\<close>

definition tail_ok :: "string \<Rightarrow> bool" where
  "tail_ok u = (dropWhile is_space u = [] \<or> dropWhile is_space u = '')'')"

text \<open>\<^verbatim>\<open>(.+?)\s*\)?$\<close> from the start of the input: the characters taken so far are \<open>raw\<close>.\<close>

fun lazy_raw :: "string \<Rightarrow> string \<Rightarrow> string option" where
  "lazy_raw raw [] = None"
| "lazy_raw raw (c # cs) =
     (if is_line_terminator c then None
      else if tail_ok cs then Some (raw @ [c])
      else lazy_raw (raw @ [c]) cs)"

text \<open>\<^verbatim>\<open>\s*(.+?)\s*\)?$\<close> with the leading \<^verbatim>\<open>\s*\<close> taking \<open>k\<close> characters, then fewer.\<close>

fun match_rest_from :: "nat \<Rightarrow> string \<Rightarrow> string option" where
  "match_rest_from 0 r = lazy_raw [] r"
| "match_rest_from (Suc k) r =
     (case lazy_raw [] (drop (Suc k) r) of
        Some raw \<Rightarrow> Some raw
      | None \<Rightarrow> match_rest_from k r)"

definition match_rest :: "string \<Rightarrow> string option" where
  "match_rest r = match_rest_from (length (takeWhile is_space r)) r"

definition operators :: "string list" where
  "operators = [''=='', ''!='', ''>='', ''<='', ''>'', ''<'']"

fun match_operator :: "string list \<Rightarrow> string \<Rightarrow> (string \<times> string) option" where
  "match_operator [] s = None"
| "match_operator (op # ops) s =
     (if starts_with s op then
        (case match_rest (drop (length op) s) of
           Some raw \<Rightarrow> Some (op, raw)
         | None \<Rightarrow> match_operator ops s)
      else match_operator ops s)"

definition filter_match :: "string \<Rightarrow> (string \<times> string \<times> string) option" where
  "filter_match filterExpr =
     (let s1 = (if starts_with filterExpr ''('' then tl filterExpr else filterExpr);
          s2 = dropWhile is_space s1
      in if starts_with s2 ''@.'' then
           (let field = takeWhile is_word (drop 2 s2);
                s3 = dropWhile is_space (dropWhile is_word (drop 2 s2))
            in if field = [] then None
               else map_option (\<lambda>(op, raw). (field, op, raw)) (match_operator operators s3))
         else None)"

text \<open>Lines 242--248: the value the raw text of the literal stands for.\<close>

definition compare_value :: "string \<Rightarrow> jsval" where
  "compare_value rawValue =
     (if rawValue = ''true'' then JBool True
      else if rawValue = ''false'' then JBool False
      else if rawValue = ''null'' then JNull
      else if rawValue \<noteq> [] \<and> is_quote (hd rawValue) then JStr (strip_quotes rawValue)
      else (case js_Number rawValue of Some n \<Rightarrow> JNum n | None \<Rightarrow> JStr rawValue))"

text \<open>
  \<^verbatim>\<open>a === b\<close>: the operands have the same type and the same value. Two objects are
  strictly equal only when they are one object; the engine's right operand is always
  a primitive, so that case never decides anything here and is \<open>False\<close>.
\<close>

fun strict_equal :: "jsval \<Rightarrow> jsval \<Rightarrow> bool" where
  "strict_equal JNull JNull = True"
| "strict_equal (JBool a) (JBool b) = (a = b)"
| "strict_equal (JNum a) (JNum b) = (a = b)"
| "strict_equal (JStr a) (JStr b) = (a = b)"
| "strict_equal _ _ = False"

text \<open>\<^verbatim>\<open>typeof a === "number" && typeof b === "number" && a R b\<close>.\<close>

fun numbers_related :: "(number \<Rightarrow> number \<Rightarrow> bool) \<Rightarrow> jsval \<Rightarrow> jsval \<Rightarrow> bool" where
  "numbers_related R (JNum a) (JNum b) = R a b"
| "numbers_related R _ _ = False"

text \<open>Lines 250--265: the switch on the operator.\<close>

definition compare_switch :: "string \<Rightarrow> jsval \<Rightarrow> jsval \<Rightarrow> bool" where
  "compare_switch op fieldVal compareVal =
     (if op = ''=='' then strict_equal fieldVal compareVal
      else if op = ''!='' then \<not> strict_equal fieldVal compareVal
      else if op = ''>'' then numbers_related (\<lambda>a b. number_less b a) fieldVal compareVal
      else if op = ''<'' then numbers_related (\<lambda>a b. number_less a b) fieldVal compareVal
      else if op = ''>='' then numbers_related (\<lambda>a b. number_le b a) fieldVal compareVal
      else if op = ''<='' then numbers_related (\<lambda>a b. number_le a b) fieldVal compareVal
      else False)"

definition evaluateFilter :: "jsval \<Rightarrow> string \<Rightarrow> bool" where
  "evaluateFilter item filterExpr =
     (case filter_match filterExpr of
        None \<Rightarrow> False
      | Some (field, op, rawValue) \<Rightarrow>
          if \<not> is_plain_object item then False
          else
            (case get_property item field of
               None \<Rightarrow> False
             | Some fieldVal \<Rightarrow> compare_switch op fieldVal (compare_value rawValue)))"

subsection \<open>Recursive descent (\<^verbatim>\<open>collectRecursive\<close>, lines 212--228)\<close>

text \<open>
  \<^verbatim>\<open>collectRecursive\<close> pushes onto the caller's \<^verbatim>\<open>results\<close>; the model takes the
  list and returns it extended. \<^verbatim>\<open>prop in record\<close> guards the push of
  \<^verbatim>\<open>record[prop]\<close>, which is then never \<^verbatim>\<open>undefined\<close>.
\<close>

definition push_property :: "jsval \<Rightarrow> string \<Rightarrow> jsval list \<Rightarrow> jsval list" where
  "push_property record key results =
     (if has_property record key then
        (case get_property record key of Some v \<Rightarrow> results @ [v] | None \<Rightarrow> results)
      else results)"

fun collectRecursive :: "jsval \<Rightarrow> string \<Rightarrow> jsval list \<Rightarrow> jsval list" where
  "collectRecursive (JObj kvs) key results =
     fold (\<lambda>val acc. collectRecursive val key acc) (map snd kvs)
       (push_property (JObj kvs) key results)"
| "collectRecursive JObjectPrototype key results =
     push_property JObjectPrototype key results"
| "collectRecursive (JArr xs) key results =
     fold (\<lambda>item acc. collectRecursive item key acc) xs results"
| "collectRecursive JNull key results = results"
| "collectRecursive (JBool b) key results = results"
| "collectRecursive (JNum n) key results = results"
| "collectRecursive (JStr s) key results = results"
| "collectRecursive (JFunction f) key results = results"

subsection \<open>Applying one token (\<^verbatim>\<open>applyToken\<close>, lines 156--210)\<close>

text \<open>\<^verbatim>\<open>s.split(":")\<close>: \<open>cur\<close> is the piece being read.\<close>

fun split_colon_from :: "string \<Rightarrow> string \<Rightarrow> string list" where
  "split_colon_from cur [] = [cur]"
| "split_colon_from cur (c # cs) =
     (if c = CHR '':'' then cur # split_colon_from [] cs else split_colon_from (cur @ [c]) cs)"

definition split_colon :: "string \<Rightarrow> string list" where
  "split_colon s = split_colon_from [] s"

text \<open>
  \<^verbatim>\<open>parts[k]\<close> of line 196: \<^verbatim>\<open>undefined\<close> (\<open>None\<close>) when there is no such piece or
  the piece is empty, else \<^verbatim>\<open>parseInt\<close> of the piece, which may be NaN.
\<close>

definition slice_part :: "string list \<Rightarrow> nat \<Rightarrow> intnum option" where
  "slice_part pieces k =
     (if k < length pieces \<and> pieces ! k \<noteq> [] then Some (parseInt (pieces ! k)) else None)"

text \<open>\<^verbatim>\<open>a ?? b\<close>: only \<^verbatim>\<open>undefined\<close> is replaced; NaN is kept.\<close>

definition nullish :: "intnum option \<Rightarrow> intnum \<Rightarrow> intnum" where
  "nullish a b = (case a of None \<Rightarrow> b | Some v \<Rightarrow> v)"

text \<open>
  \<^verbatim>\<open>if (i >= 0 && i < input.length) results.push(input[i])\<close> of lines 171 and 201:
  the element at \<open>i\<close> when the test holds.
\<close>

fun element_at :: "jsval list \<Rightarrow> intnum \<Rightarrow> jsval option" where
  "element_at input (IntVal i) =
     (if 0 \<le> i \<and> i < int (length input) then Some (input ! nat i) else None)"
| "element_at input NaN = None"
| "element_at input PosInf = None"
| "element_at input NegInf = None"

definition push_element :: "jsval list \<Rightarrow> intnum \<Rightarrow> jsval list \<Rightarrow> jsval list" where
  "push_element input i results =
     (case element_at input i of Some v \<Rightarrow> results @ [v] | None \<Rightarrow> results)"

text \<open>
  The loop of lines 200--202. It need not end, so it is a partial function:
  \<open>None\<close> is a loop that runs for ever.
\<close>

partial_function (option) slice_loop ::
  "jsval list \<Rightarrow> intnum \<Rightarrow> intnum \<Rightarrow> intnum \<Rightarrow> jsval list \<Rightarrow> jsval list option" where
  "slice_loop input si endv step results =
     (if intnum_less si endv
      then slice_loop input (intnum_add si step) endv step (push_element input si results)
      else Some results)"

declare slice_loop.simps [code]

text \<open>The body of the switch for one input: \<open>results\<close> before, \<open>results\<close> after.\<close>

definition apply_input :: "token \<Rightarrow> jsval \<Rightarrow> jsval list \<Rightarrow> jsval list option" where
  "apply_input token input results =
     (case ttype token of
        TProperty \<Rightarrow>
          Some (if is_plain_object input then
                  (case get_property input (tvalue token) of
                     Some val \<Rightarrow> results @ [val]
                   | None \<Rightarrow> results)
                else results)
      | TIndex \<Rightarrow>
          Some (case input of
                  JArr xs \<Rightarrow> push_element xs (parseInt (tvalue token)) results
                | _ \<Rightarrow> results)
      | TWildcard \<Rightarrow>
          Some (case input of
                  JArr xs \<Rightarrow> results @ xs
                | _ \<Rightarrow> if is_plain_object input then results @ object_values input else results)
      | TRecursive \<Rightarrow> Some (collectRecursive input (tvalue token) results)
      | TFilter \<Rightarrow>
          Some (case input of
                  JArr xs \<Rightarrow> results @ filter (\<lambda>item. evaluateFilter item (tvalue token)) xs
                | _ \<Rightarrow> results)
      | TSlice \<Rightarrow>
          (case input of
             JArr xs \<Rightarrow>
               (let parts = split_colon (tvalue token);
                    start = nullish (slice_part parts 0) (IntVal 0);
                    endv = nullish (slice_part parts 1) (IntVal (int (length xs)));
                    step = nullish (slice_part parts 2) (IntVal 1)
                in slice_loop xs start endv step results)
           | _ \<Rightarrow> Some results))"

fun applyToken_loop :: "jsval list \<Rightarrow> token \<Rightarrow> jsval list \<Rightarrow> jsval list option" where
  "applyToken_loop [] token results = Some results"
| "applyToken_loop (input # inputs) token results =
     (case apply_input token input results of
        None \<Rightarrow> None
      | Some results' \<Rightarrow> applyToken_loop inputs token results')"

definition applyToken :: "jsval list \<Rightarrow> token \<Rightarrow> jsval list option" where
  "applyToken inputs token = applyToken_loop inputs token []"

subsection \<open>The driver (\<^verbatim>\<open>queryJsonPath\<close>, lines 75--88)\<close>

datatype error = InvalidExpression

fun apply_tokens :: "token list \<Rightarrow> jsval list \<Rightarrow> jsval list option" where
  "apply_tokens [] results = Some results"
| "apply_tokens (token # tokens) results =
     (case applyToken results token of
        None \<Rightarrow> None
      | Some results' \<Rightarrow> apply_tokens tokens results')"

text \<open>
  The outcome of a call: \<open>Some (Inl e)\<close> is the thrown error, \<open>Some (Inr rs)\<close> the
  returned array, \<open>None\<close> a call that never returns.
\<close>

definition queryJsonPath :: "jsval \<Rightarrow> string \<Rightarrow> (error + jsval list) option" where
  "queryJsonPath data expression =
     (if \<not> starts_with expression ''$'' then Some (Inl InvalidExpression)
      else map_option Inr (apply_tokens (tokenize (tl expression)) [data]))"

subsection \<open>Notions used in the statements\<close>

text \<open>
  Bracket nesting, by counting: \<open>unclosed s\<close> says that a bracket opened just before
  \<open>s\<close> is still open after every prefix of \<open>s\<close>, that is, no prefix holds more
  \<^verbatim>\<open>]\<close> than \<^verbatim>\<open>[\<close>. When moreover \<open>s\<close> holds as many of the one as of the other,
  a \<^verbatim>\<open>]\<close> that follows \<open>s\<close> is the matching one.
\<close>

definition opens :: "string \<Rightarrow> nat" where
  "opens s = count_list s (CHR ''['')"

definition closes :: "string \<Rightarrow> nat" where
  "closes s = count_list s (CHR '']'')"

definition unclosed :: "string \<Rightarrow> bool" where
  "unclosed s = list_all (\<lambda>n. closes (take n s) \<le> opens (take n s)) [0..<Suc (length s)]"

text \<open>The values a filter literal can stand for: null, a boolean, a Number or a string.\<close>

fun is_primitive :: "jsval \<Rightarrow> bool" where
  "is_primitive JNull = True"
| "is_primitive (JBool b) = True"
| "is_primitive (JNum n) = True"
| "is_primitive (JStr s) = True"
| "is_primitive _ = False"

text \<open>
  The slice of the specification: the indices \<open>start\<close>, \<open>start + step\<close>,
  \<open>start + 2 * step\<close>, ... below \<open>stop\<close> (for a positive step there are
  \<open>\<lceil>(stop - start) / step\<rceil>\<close> of them), and of these the elements at the indices
  inside the array.
\<close>

definition slice_indices :: "int \<Rightarrow> int \<Rightarrow> int \<Rightarrow> int list" where
  "slice_indices start stop step =
     map (\<lambda>k. start + int k * step) [0..<nat ((stop - start + step - 1) div step)]"

definition elements_in_range :: "jsval list \<Rightarrow> int list \<Rightarrow> jsval list" where
  "elements_in_range xs idxs =
     map (\<lambda>i. xs ! nat i) (filter (\<lambda>i. 0 \<le> i \<and> i < int (length xs)) idxs)"

text \<open>
  Recursive descent as the specification words it: a pre-order walk that yields, at
  every object that has \<open>p\<close> among its own keys, the value under \<open>p\<close>, and
  goes on into every value of an object and every element of an array.
\<close>

fun preorder_matches :: "string \<Rightarrow> jsval \<Rightarrow> jsval list" where
  "preorder_matches p (JObj kvs) =
     (case map_of kvs p of Some v \<Rightarrow> [v] | None \<Rightarrow> [])
     @ concat (map (\<lambda>v. preorder_matches p v) (map snd kvs))"
| "preorder_matches p (JArr xs) = concat (map (\<lambda>v. preorder_matches p v) xs)"
| "preorder_matches p v = []"

text \<open>The values present in a document: the document and every value nested in it.\<close>

fun subvalues :: "jsval \<Rightarrow> jsval list" where
  "subvalues (JObj kvs) = JObj kvs # concat (map (\<lambda>v. subvalues v) (map snd kvs))"
| "subvalues (JArr xs) = JArr xs # concat (map (\<lambda>v. subvalues v) xs)"
| "subvalues v = [v]"

text \<open>
  The language of the regular expression of line 232, written out from the source:
  an optional \<^verbatim>\<open>(\<close>, white space, \<^verbatim>\<open>@.\<close>, a non-empty word, white space, one of the
  six operators, white space, a non-empty text free of line terminators, white space,
  an optional \<^verbatim>\<open>)\<close>. This is what the code parses; it is not the grammar of the
  specification, which follows.
\<close>

definition matches_pattern :: "string \<Rightarrow> bool" where
  "matches_pattern s =
     (\<exists>lp w0 field w1 op w2 raw w3 rp.
        s = lp @ w0 @ ''@.'' @ field @ w1 @ op @ w2 @ raw @ w3 @ rp
        \<and> (lp = [] \<or> lp = ''('')
        \<and> list_all is_space w0
        \<and> field \<noteq> [] \<and> list_all is_word field
        \<and> list_all is_space w1
        \<and> op \<in> set operators
        \<and> list_all is_space w2
        \<and> raw \<noteq> [] \<and> list_all (\<lambda>c. \<not> is_line_terminator c) raw
        \<and> list_all is_space w3
        \<and> (rp = [] \<or> rp = '')''))"

text \<open>
  The filter grammar in the words of the specification (section 4.3):
  \<^verbatim>\<open>[optional "("] "@." <fieldName> [whitespace] <operator> [whitespace] <literal> [optional ")"]\<close>,
  where the field name is one or more word characters, the operator is one of the six,
  and the literal is the remaining text, trimmed. The literal is read as any non-empty
  text, and the white space trimmed off its end is \<open>w3\<close>. Between the optional
  \<^verbatim>\<open>(\<close> and \<^verbatim>\<open>@.\<close> the grammar has nothing, where the regular expression of the
  code has \<^verbatim>\<open>\s*\<close>.
\<close>

definition spec_filter_grammar :: "string \<Rightarrow> bool" where
  "spec_filter_grammar s =
     (\<exists>lp field w1 op w2 literal w3 rp.
        s = lp @ ''@.'' @ field @ w1 @ op @ w2 @ literal @ w3 @ rp
        \<and> (lp = [] \<or> lp = ''('')
        \<and> field \<noteq> [] \<and> list_all is_word field
        \<and> list_all is_space w1
        \<and> op \<in> set operators
        \<and> list_all is_space w2
        \<and> literal \<noteq> []
        \<and> list_all is_space w3
        \<and> (rp = [] \<or> rp = '')''))"

text \<open>The names every object inherits from \<^verbatim>\<open>Object.prototype\<close>.\<close>

definition inherited :: "string \<Rightarrow> bool" where
  "inherited key = (key = ''__proto__'' \<or> key \<in> set prototype_functions)"

text \<open>
  What a lookup through the prototype chain can return that no document holds: a
  built-in function, \<^verbatim>\<open>Object.prototype\<close>, and the null that ends the chain.
\<close>

fun is_builtin :: "jsval \<Rightarrow> bool" where
  "is_builtin (JFunction f) = True"
| "is_builtin JObjectPrototype = True"
| "is_builtin JNull = True"
| "is_builtin _ = False"

text \<open>A token that names no inherited property.\<close>

definition own_names_only :: "token \<Rightarrow> bool" where
  "own_names_only t =
     (if ttype t = TProperty \<or> ttype t = TRecursive then \<not> inherited (tvalue t) else True)"

text \<open>The elements of an array and the values of an object.\<close>

definition children :: "jsval \<Rightarrow> jsval set" where
  "children v = (case v of JArr xs \<Rightarrow> set xs | JObj kvs \<Rightarrow> snd ` set kvs | _ \<Rightarrow> {})"

text \<open>
  A value is from the document when it is a value of the document or one of the
  built-in values above.
\<close>

definition from_document :: "jsval \<Rightarrow> jsval \<Rightarrow> bool" where
  "from_document D v = (v \<in> set (subvalues D) \<or> is_builtin v)"

text \<open>
  A sufficient condition for the slice loop to end: it does not start
  (\<open>start < end\<close> is false, as it is when either is NaN), or the step is NaN or
  \<open>+\<infinity>\<close> (the index becomes NaN or \<open>+\<infinity>\<close> after one round), or the step is positive
  and start and end are integers of magnitude below \<open>2^53\<close>. A list of tokens is
  benign for a document when this holds of every Slice token on every array of the
  document.
\<close>

fun safe_integer :: "intnum \<Rightarrow> bool" where
  "safe_integer (IntVal n) = (\<bar>n\<bar> < 2 ^ 53)"
| "safe_integer _ = False"

fun benign :: "intnum \<Rightarrow> intnum \<Rightarrow> intnum \<Rightarrow> bool" where
  "benign start endv NaN = True"
| "benign start endv PosInf = True"
| "benign start endv NegInf = (\<not> intnum_less start endv)"
| "benign start endv (IntVal st) =
     (\<not> intnum_less start endv \<or> (0 < st \<and> safe_integer start \<and> safe_integer endv))"

definition slice_benign :: "token \<Rightarrow> jsval \<Rightarrow> bool" where
  "slice_benign t v =
     (case v of
        JArr xs \<Rightarrow>
          (let parts = split_colon (tvalue t)
           in benign (nullish (slice_part parts 0) (IntVal 0))
                (nullish (slice_part parts 1) (IntVal (int (length xs))))
                (nullish (slice_part parts 2) (IntVal 1)))
      | _ \<Rightarrow> True)"

definition slices_benign :: "token list \<Rightarrow> jsval \<Rightarrow> bool" where
  "slices_benign ts D =
     list_all (\<lambda>t. ttype t \<noteq> TSlice \<or> list_all (slice_benign t) (subvalues D)) ts"

section \<open>Numbers\<close>

text \<open>Every integer of magnitude below \<open>2^53\<close> is a double: rounding leaves it as it is.\<close>

lemma round_half_even_int: "round_half_even (of_int z) = z"
  by (simp add: round_half_even_def)

lemma floor_log2_int:
  assumes "0 < m"
  shows "floor_log2 (of_int m) = bitlen m - 1"
proof -
  have b: "2 ^ nat (bitlen m - 1) \<le> m" using bitlen_bounds[OF assms] by simp
  have pos: "0 < bitlen m"
    using assms bitlen_nonneg[of m] bitlen_eq_zero_iff[of m] by linarith
  have "(2::rat) powi (bitlen m - 1) = of_int (2 ^ nat (bitlen m - 1))"
    using pos by (simp add: power_int_def)
  also have "\<dots> \<le> of_int m" using b by (simp only: of_int_le_iff)
  finally have "\<not> (of_int m :: rat) < 2 powi (bitlen m - 1)" by simp
  moreover have "bitlen 1 = 1" using bitlen_twopow_add_eq[of 0 0] by simp
  ultimately show ?thesis
    by (simp add: floor_log2_def Let_def)
qed

lemma round_double_exact:
  assumes "\<bar>n\<bar> < 2 ^ 53"
  shows "round_double (of_int n) = Finite (of_int n)"
proof (cases "n = 0")
  case True
  then show ?thesis by (simp add: round_double_def)
next
  case False
  define m where "m = \<bar>n\<bar>"
  have m: "0 < m" "m < 2 ^ 53" using False assms by (simp_all add: m_def)
  define k where "k = bitlen m - 1"
  have k0: "0 \<le> k"
    using m(1) bitlen_nonneg[of m] bitlen_eq_zero_iff[of m] by (simp add: k_def)
  have "bitlen m \<le> 53" using m(2) by (simp add: bitlen_le_iff_power)
  then have k52: "k \<le> 52" by (simp add: k_def)
  define j where "j = nat (52 - k)"
  have p: "max k (- 1022) - 52 = - int j" using k0 k52 by (simp add: j_def)
  have a: "\<bar>of_int n :: rat\<bar> = of_int m" by (simp add: m_def)
  have fl: "floor_log2 (of_int m) = k" using floor_log2_int[OF m(1)] by (simp add: k_def)
  have pw: "(2::rat) powi (- int j) = inverse (2 ^ j)"
    by (simp add: power_int_minus)
  have quot: "(of_int m :: rat) / inverse (2 ^ j) = of_int (m * 2 ^ j)"
    by (simp add: field_simps)
  have v: "of_int (round_half_even (of_int m / 2 powi (- int j))) * (2::rat) powi (- int j) = of_int m"
    unfolding pw quot round_half_even_int by simp
  have small: "\<not> (2::rat) powi 1024 \<le> of_int m"
  proof -
    have "m < 2 ^ 1024" using m(2) by (rule less_trans) simp
    then have "(of_int m :: rat) < of_int (2 ^ 1024)" by (simp only: of_int_less_iff)
    then show ?thesis by (simp add: power_int_def)
  qed
  have "round_double (of_int n) = Finite (if (of_int n :: rat) < 0 then - of_int m else of_int m)"
    using False small by (simp add: round_double_def Let_def a fl p v)
  also have "(if (of_int n :: rat) < 0 then - of_int m else of_int m) = (of_int n :: rat)"
    by (simp add: m_def)
  finally show ?thesis .
qed

section \<open>The tokenizer\<close>

lemma unclosed_iff: "unclosed s \<longleftrightarrow> (\<forall>n\<le>length s. closes (take n s) \<le> opens (take n s))"
  by (auto simp: unclosed_def list_all_iff less_Suc_eq_le)

lemma tokenize_loop_append: "tokenize_loop tokens s = tokens @ tokenize_loop [] s"
proof (induction "length s" arbitrary: tokens s rule: less_induct)
  case less
  have IH: "tokenize_loop acc r = acc @ tokenize_loop [] r" if "length r < length s" for r acc
    using less that by blast
  show ?case
  proof (cases s)
    case Nil
    then show ?thesis by simp
  next
    case (Cons c cs)
    have step: "\<exists>ts r. length r < length s \<and> (\<forall>acc. tokenize_loop acc s = tokenize_loop (acc @ ts) r)"
    proof -
      consider (rec) "c = CHR ''.''" "cs \<noteq> [] \<and> hd cs = CHR ''.''"
        | (wild) "c = CHR ''.''" "\<not> (cs \<noteq> [] \<and> hd cs = CHR ''.'')" "cs \<noteq> [] \<and> hd cs = CHR ''*''"
        | (name) "c = CHR ''.''" "\<not> (cs \<noteq> [] \<and> hd cs = CHR ''.'')" "\<not> (cs \<noteq> [] \<and> hd cs = CHR ''*'')"
        | (br) "c \<noteq> CHR ''.''" "c = CHR ''[''"
        | (skip) "c \<noteq> CHR ''.''" "c \<noteq> CHR ''[''"
        by blast
      then show ?thesis
      proof cases
        case rec
        have "length (snd (read_prop [] (tl cs))) < length s"
          using read_prop_length[of "[]" "tl cs"] rec Cons by (cases cs) auto
        moreover have "\<forall>acc. tokenize_loop acc s = tokenize_loop
            (acc @ [\<lparr>ttype = TRecursive, tvalue = fst (read_prop [] (tl cs))\<rparr>])
            (snd (read_prop [] (tl cs)))"
          using rec Cons by simp
        ultimately show ?thesis by blast
      next
        case wild
        have "length (tl cs) < length s" using Cons by auto
        moreover have "\<forall>acc. tokenize_loop acc s =
            tokenize_loop (acc @ [\<lparr>ttype = TWildcard, tvalue = ''*''\<rparr>]) (tl cs)"
          using wild Cons by simp
        ultimately show ?thesis by blast
      next
        case name
        have len: "length (snd (read_prop [] cs)) < length s"
          using read_prop_length[of "[]" cs] Cons by auto
        have "\<forall>acc. tokenize_loop acc s = tokenize_loop
            (acc @ (if fst (read_prop [] cs) \<noteq> []
                    then [\<lparr>ttype = TProperty, tvalue = fst (read_prop [] cs)\<rparr>] else []))
            (snd (read_prop [] cs))"
          using name Cons by auto
        with len show ?thesis by blast
      next
        case br
        have "length (snd (read_bracket 1 [] cs)) < length s"
          using read_bracket_length[of 1 "[]" cs] Cons by auto
        moreover have "\<forall>acc. tokenize_loop acc s = tokenize_loop
            (acc @ [bracket_token (fst (read_bracket 1 [] cs))]) (snd (read_bracket 1 [] cs))"
          using br Cons by simp
        ultimately show ?thesis by blast
      next
        case skip
        have "length cs < length s" using Cons by auto
        moreover have "\<forall>acc. tokenize_loop acc s = tokenize_loop (acc @ []) cs"
          using skip Cons by simp
        ultimately show ?thesis by blast
      qed
    qed
    then obtain ts r where r: "length r < length s"
      and st: "\<And>acc. tokenize_loop acc s = tokenize_loop (acc @ ts) r"
      by blast
    have "tokenize_loop tokens s = (tokens @ ts) @ tokenize_loop [] r"
      using st[of tokens] IH[OF r, of "tokens @ ts"] by simp
    moreover have "tokenize_loop [] s = ts @ tokenize_loop [] r"
      using st[of "[]"] IH[OF r, of ts] by simp
    ultimately show ?thesis by simp
  qed
qed

lemma read_bracket_zero: "read_bracket 0 content rest = (content, rest)"
  by (cases rest) auto

lemma read_bracket_open:
  "\<forall>n\<le>length s. closes (take n s) < depth + opens (take n s) \<Longrightarrow>
   read_bracket depth content (s @ rest) =
   read_bracket (depth + opens s - closes s) (content @ s) rest"
proof (induction s arbitrary: depth content)
  case Nil
  then show ?case by (simp add: opens_def closes_def)
next
  case (Cons c cs)
  from Cons.prems have d0: "0 < depth"
    by (auto simp: opens_def closes_def dest: spec[of _ 0])
  have sucn: "closes (take (Suc n) (c # cs)) < depth + opens (take (Suc n) (c # cs))"
    if "n \<le> length cs" for n
    using Cons.prems that by auto
  show ?case
  proof (cases "c = CHR ''[''")
    case True
    have "\<forall>n\<le>length cs. closes (take n cs) < (depth + 1) + opens (take n cs)"
      using sucn True by (auto simp: opens_def closes_def)
    from Cons.IH[OF this, of "content @ [c]"] True d0 show ?thesis
      by (simp add: opens_def closes_def)
  next
    case False
    show ?thesis
    proof (cases "c = CHR '']''")
      case True
      from sucn[of 0] True have d2: "2 \<le> depth" by (simp add: opens_def closes_def)
      have "\<forall>n\<le>length cs. closes (take n cs) < (depth - 1) + opens (take n cs)"
        using sucn True d2 by (fastforce simp: opens_def closes_def)
      from Cons.IH[OF this, of "content @ [c]"] True d2 show ?thesis
        by (simp add: opens_def closes_def)
    next
      case c: False
      have "\<forall>n\<le>length cs. closes (take n cs) < depth + opens (take n cs)"
        using sucn False c by (auto simp: opens_def closes_def)
      from Cons.IH[OF this, of "content @ [c]"] False c d0 show ?thesis
        by (simp add: opens_def closes_def)
    qed
  qed
qed

lemma read_bracket_pair:
  assumes "unclosed content" and "closes content = opens content"
  shows "read_bracket 1 [] (content @ CHR '']'' # rest) = (content, rest)"
proof -
  have "\<forall>n\<le>length content. closes (take n content) < 1 + opens (take n content)"
    using assms(1) by (auto simp: unclosed_iff)
  from read_bracket_open[OF this, of "[]" "CHR '']'' # rest"] assms(2)
  show ?thesis by (simp add: read_bracket_zero)
qed

lemma read_bracket_unclosed:
  assumes "unclosed s"
  shows "read_bracket 1 [] s = (s, [])"
proof -
  have "\<forall>n\<le>length s. closes (take n s) < 1 + opens (take n s)"
    using assms by (auto simp: unclosed_iff)
  from read_bracket_open[OF this, of "[]" "[]"] show ?thesis by simp
qed

lemma tokenize_loop_pair:
  assumes "unclosed content" and "closes content = opens content"
  shows "tokenize_loop tokens (CHR ''['' # content @ CHR '']'' # rest) =
         tokenize_loop (tokens @ [bracket_token content]) rest"
  using read_bracket_pair[OF assms, of rest] by simp

lemma no_brackets_unclosed:
  assumes "CHR ''['' \<notin> set s" and "CHR '']'' \<notin> set s"
  shows "unclosed s \<and> closes s = opens s"
proof -
  have "count_list (take n s) (CHR '']'') = 0" for n
    using assms(2) by (meson count_list_0_iff in_set_takeD)
  moreover have "count_list s (CHR ''['') = 0" "count_list s (CHR '']'') = 0"
    using assms by (simp_all add: count_list_0_iff)
  ultimately show ?thesis by (simp add: unclosed_iff opens_def closes_def)
qed


lemma digit_facts:
  assumes "is_digit c"
  shows "c \<noteq> CHR ''['' \<and> c \<noteq> CHR '']'' \<and> c \<noteq> CHR '':'' \<and> c \<noteq> CHR ''-'' \<and> \<not> is_quote c"
  using assms by (auto simp: is_digit_def is_quote_def code_unit_def)

lemma minus_digits_token:
  assumes "list_all is_digit ds"
  shows "bracket_token (CHR ''-'' # ds) = \<lparr>ttype = TProperty, tvalue = CHR ''-'' # ds\<rparr>"
proof -
  have nd: "\<not> is_digit (CHR ''-'')" by (simp add: is_digit_def code_unit_def)
  have colon: "CHR '':'' \<notin> set ds"
    using assms digit_facts by (auto simp: list_all_iff)
  have "filter (\<lambda>c. \<not> is_quote c) ds = ds"
    using assms digit_facts by (auto simp: list_all_iff intro: filter_True)
  then have "strip_quotes (CHR ''-'' # ds) = CHR ''-'' # ds"
    by (simp add: strip_quotes_def is_quote_def)
  with nd colon show ?thesis by (simp add: bracket_token_def)
qed

lemma apply_input_property_array:
  "apply_input \<lparr>ttype = TProperty, tvalue = name\<rparr> (JArr xs) results = Some results"
  by (simp add: apply_input_def)

lemma is_digit_iff: "is_digit c \<longleftrightarrow> c \<in> set ''0123456789''"
proof
  assume "is_digit c"
  then have "48 \<le> (of_char c :: nat)" and "(of_char c :: nat) \<le> 57"
    by (simp_all add: is_digit_def code_unit_def)
  then have "(of_char c :: nat) \<in> of_char ` set ''0123456789''"
    by simp arith
  then obtain d where "d \<in> set ''0123456789''" and "(of_char c :: nat) = of_char d"
    by blast
  then show "c \<in> set ''0123456789''" by (simp only: of_char_eq_iff)
next
  assume "c \<in> set ''0123456789''"
  then show "is_digit c" by (auto simp: is_digit_def code_unit_def)
qed

lemma starts_with_question: "starts_with s ''?'' \<longleftrightarrow> s \<noteq> [] \<and> hd s = CHR ''?''"
  by (cases s) auto

lemma strip_quotes_filter:
  "strip_quotes s = filter (\<lambda>c. c \<noteq> CHR 0x27 \<and> c \<noteq> CHR 0x22) s"
  by (simp add: strip_quotes_def is_quote_def)

lemma bracket_token_property:
  assumes "content \<noteq> ''*''" and "content = [] \<or> hd content \<noteq> CHR ''?''"
    and "CHR '':'' \<notin> set content"
    and "content = [] \<or> (\<exists>c \<in> set content. c \<notin> set ''0123456789'')"
  shows "bracket_token content =
     \<lparr>ttype = TProperty, tvalue = filter (\<lambda>c. c \<noteq> CHR 0x27 \<and> c \<noteq> CHR 0x22) content\<rparr>"
proof -
  have "\<not> starts_with content ''?''" using assms(2) by (auto simp: starts_with_question)
  moreover have "\<not> (content \<noteq> [] \<and> list_all is_digit content)"
    using assms(4) by (auto simp: list_all_iff is_digit_iff)
  ultimately show ?thesis
    using assms(1,3) by (simp add: bracket_token_def strip_quotes_filter)
qed

lemma bracket_pair_tokens:
  assumes "unclosed c" and "closes c = opens c"
  shows "tokenize_loop tokens (CHR ''['' # c @ CHR '']'' # rest) =
      tokens @ bracket_token c # tokenize rest"
proof -
  have "tokenize_loop tokens (CHR ''['' # c @ CHR '']'' # rest) =
      tokenize_loop (tokens @ [bracket_token c]) rest"
    by (rule tokenize_loop_pair[OF assms])
  also have "\<dots> = (tokens @ [bracket_token c]) @ tokenize_loop [] rest"
    by (rule tokenize_loop_append)
  finally show ?thesis by (simp add: tokenize_def)
qed

text \<open>
  Claim C8. When the scan stands at a bracket whose content is a minus sign followed by
  digits, the content is not taken for an Index: the bracket yields the Property token
  named by the content (there is no quote to strip), and the scan goes on after the
  bracket. On an array a Property token adds nothing to the results, so the query
  \<^verbatim>\<open>$[-1]\<close> (and every such) returns the empty list on every array.
\<close>

theorem minus_digits_bracket_is_property:
  assumes "list_all is_digit ds"
  shows "tokenize_loop tokens (''[-'' @ ds @ '']'' @ rest) =
           tokenize_loop (tokens @ [\<lparr>ttype = TProperty, tvalue = ''-'' @ ds\<rparr>]) rest
       \<and> ttype (bracket_token (''-'' @ ds)) \<noteq> TIndex
       \<and> apply_input \<lparr>ttype = TProperty, tvalue = ''-'' @ ds\<rparr> (JArr xs) results = Some results
       \<and> queryJsonPath (JArr xs) (''$[-'' @ ds @ '']'') = Some (Inr [])"
proof -
  have nb: "CHR ''['' \<notin> set (CHR ''-'' # ds)" "CHR '']'' \<notin> set (CHR ''-'' # ds)"
    using assms digit_facts by (auto simp: list_all_iff)
  note bal = no_brackets_unclosed[OF nb]
  have tok: "bracket_token (CHR ''-'' # ds) = \<lparr>ttype = TProperty, tvalue = CHR ''-'' # ds\<rparr>"
    by (rule minus_digits_token[OF assms])
  have loop: "tokenize_loop ts (CHR ''['' # (CHR ''-'' # ds) @ CHR '']'' # r) =
      tokenize_loop (ts @ [\<lparr>ttype = TProperty, tvalue = CHR ''-'' # ds\<rparr>]) r" for ts r
    using tokenize_loop_pair[of "CHR ''-'' # ds" ts r] bal tok by simp
  have q: "queryJsonPath (JArr xs) (''$[-'' @ ds @ '']'') = Some (Inr [])"
    using loop[of "[]" "[]"]
    by (simp add: queryJsonPath_def tokenize_def applyToken_def apply_input_def)
  from loop[of tokens rest] tok q show ?thesis
    by (simp add: apply_input_def)
qed

theorem minus_digits_bracket_witness:
  "list_all is_digit ''1''
   \<and> tokenize ''.a[-1]'' =
       [\<lparr>ttype = TProperty, tvalue = ''a''\<rparr>, \<lparr>ttype = TProperty, tvalue = ''-1''\<rparr>]
   \<and> queryJsonPath (JArr [JStr ''x'', JStr ''y'']) ''$[-1]'' = Some (Inr [])"
proof -
  have d: "list_all is_digit ''1''" by (simp add: is_digit_def code_unit_def)
  from minus_digits_bracket_is_property[OF d,
      of "[\<lparr>ttype = TProperty, tvalue = ''a''\<rparr>]" "[]" "[JStr ''x'', JStr ''y'']" "[]"] d
  show ?thesis by (simp add: tokenize_def)
qed

text \<open>
  Claim C2 says that a bracket pair with empty or malformed content yields no token.
  The code has no such case: the query fragment \<^verbatim>\<open>[]\<close> yields one Property token
  with the empty name.
\<close>

theorem empty_bracket_emits_property:
  "tokenize ''[]'' = [\<lparr>ttype = TProperty, tvalue = []\<rparr>]"
  by (simp add: tokenize_def bracket_token_def strip_quotes_def)

text \<open>
  Claim C2 as amended. Every bracket pair yields exactly one token, whatever its
  content: the tokens of the input from the bracket on are the token of the content
  followed by the tokens of what follows the bracket. When the content is not
  \<^verbatim>\<open>*\<close>, does not start with \<^verbatim>\<open>?\<close>, holds no \<^verbatim>\<open>:\<close> and is not a non-empty run
  of digits, that token is the Property token named by the content with every single
  and double quote character removed. The empty content is such a content:
  \<^verbatim>\<open>[]\<close> yields the Property token with the empty name, and the scan goes on.
\<close>

theorem bracket_pair_emits_one_token:
  assumes "unclosed content" and "closes content = opens content"
  shows "tokenize_loop tokens (''['' @ content @ '']'' @ rest) =
           tokens @ bracket_token content # tokenize rest
       \<and> (content \<noteq> ''*'' \<and> (content = [] \<or> hd content \<noteq> CHR ''?'')
            \<and> CHR '':'' \<notin> set content
            \<and> (content = [] \<or> (\<exists>c \<in> set content. c \<notin> set ''0123456789''))
          \<longrightarrow> tokenize_loop tokens (''['' @ content @ '']'' @ rest) =
                tokens @ \<lparr>ttype = TProperty,
                           tvalue = filter (\<lambda>c. c \<noteq> CHR 0x27 \<and> c \<noteq> CHR 0x22) content\<rparr>
                  # tokenize rest)
       \<and> tokenize_loop tokens (''[]'' @ rest) =
           tokens @ \<lparr>ttype = TProperty, tvalue = []\<rparr> # tokenize rest"
proof -
  have one: "tokenize_loop tokens (''['' @ content @ '']'' @ rest) =
      tokens @ bracket_token content # tokenize rest"
    using bracket_pair_tokens[OF assms, of tokens rest] by simp
  have "unclosed []" "closes [] = opens []"
    by (simp_all add: unclosed_def opens_def closes_def)
  from bracket_pair_tokens[OF this, of tokens rest]
  have empty: "tokenize_loop tokens (''[]'' @ rest) =
      tokens @ \<lparr>ttype = TProperty, tvalue = []\<rparr> # tokenize rest"
    by (simp add: bracket_token_def strip_quotes_def)
  have property: "tokenize_loop tokens (''['' @ content @ '']'' @ rest) =
                tokens @ \<lparr>ttype = TProperty,
                           tvalue = filter (\<lambda>c. c \<noteq> CHR 0x27 \<and> c \<noteq> CHR 0x22) content\<rparr>
                  # tokenize rest"
    if "content \<noteq> ''*''" "content = [] \<or> hd content \<noteq> CHR ''?''"
      "CHR '':'' \<notin> set content"
      "content = [] \<or> (\<exists>c \<in> set content. c \<notin> set ''0123456789'')"
    using one bracket_token_property[OF that] by simp
  from one empty property show ?thesis by blast
qed

theorem bracket_pair_witness:
  "unclosed ''\"a[0]\"'' \<and> closes ''\"a[0]\"'' = opens ''\"a[0]\"''
   \<and> tokenize ''[\"a[0]\"][]['b']'' =
       [\<lparr>ttype = TProperty, tvalue = ''a[0]''\<rparr>, \<lparr>ttype = TProperty, tvalue = []\<rparr>,
        \<lparr>ttype = TProperty, tvalue = ''b''\<rparr>]"
proof -
  have u: "unclosed ''\"a[0]\"''" by (simp add: unclosed_def opens_def closes_def upt_rec)
  have c: "closes ''\"a[0]\"'' = opens ''\"a[0]\"''" by (simp add: opens_def closes_def)
  have r: "tokenize ''[]['b']'' =
      [\<lparr>ttype = TProperty, tvalue = []\<rparr>, \<lparr>ttype = TProperty, tvalue = ''b''\<rparr>]"
    by (simp add: tokenize_def bracket_token_def strip_quotes_def is_quote_def is_digit_def
        code_unit_def)
  from bracket_pair_emits_one_token[OF u c, of "[]" "''[]['b']''"] u c r
  show ?thesis by (simp add: tokenize_def)
qed

text \<open>
  Claim C10. When the scan stands at a bracket that is not closed before the end of
  the input, the inner loop takes every remaining character as the content and leaves
  nothing, and the main loop ends with the token of that content, classified as for
  a closed bracket.
\<close>

theorem unmatched_bracket_takes_rest:
  assumes "unclosed s"
  shows "read_bracket 1 [] s = (s, [])
       \<and> tokenize_loop tokens (CHR ''['' # s) = tokens @ [bracket_token s]"
  using read_bracket_unclosed[OF assms] by simp

theorem unmatched_bracket_witness:
  "unclosed ''0[a]'' \<and> tokenize ''.x[0[a]'' =
     [\<lparr>ttype = TProperty, tvalue = ''x''\<rparr>, \<lparr>ttype = TProperty, tvalue = ''0[a]''\<rparr>]
   \<and> tokenize ''[12'' = [\<lparr>ttype = TIndex, tvalue = ''12''\<rparr>]"
proof -
  have u: "unclosed ''0[a]''" by (simp add: unclosed_def opens_def closes_def upt_rec)
  have b: "bracket_token ''0[a]'' = \<lparr>ttype = TProperty, tvalue = ''0[a]''\<rparr>"
    by (simp add: bracket_token_def strip_quotes_def is_quote_def is_digit_def code_unit_def)
  have u2: "unclosed ''12''" by (simp add: unclosed_def opens_def closes_def upt_rec)
  have b2: "bracket_token ''12'' = \<lparr>ttype = TIndex, tvalue = ''12''\<rparr>"
    by (simp add: bracket_token_def is_digit_def code_unit_def)
  from unmatched_bracket_takes_rest[OF u, of "[\<lparr>ttype = TProperty, tvalue = ''x''\<rparr>]"]
    unmatched_bracket_takes_rest[OF u2, of "[]"] u b b2
  show ?thesis by (simp add: tokenize_def)
qed

section \<open>The filter interpreter\<close>

text \<open>The matcher accepts exactly the language of the pattern.\<close>

lemma starts_with_iff: "starts_with s p \<longleftrightarrow> (\<exists>r. s = p @ r)"
  by (induction s p rule: starts_with.induct) auto

lemma tail_ok_iff:
  "tail_ok u \<longleftrightarrow> (\<exists>w rp. u = w @ rp \<and> list_all is_space w \<and> (rp = [] \<or> rp = '')''))"
proof
  assume "tail_ok u"
  then have "dropWhile is_space u = [] \<or> dropWhile is_space u = '')''"
    by (simp add: tail_ok_def)
  moreover have "u = takeWhile is_space u @ dropWhile is_space u" by simp
  moreover have "list_all is_space (takeWhile is_space u)"
    by (simp add: list_all_iff) (meson set_takeWhileD)
  ultimately show "\<exists>w rp. u = w @ rp \<and> list_all is_space w \<and> (rp = [] \<or> rp = '')'')"
    by blast
next
  assume "\<exists>w rp. u = w @ rp \<and> list_all is_space w \<and> (rp = [] \<or> rp = '')'')"
  then obtain w rp where u: "u = w @ rp" and w: "list_all is_space w"
    and rp: "rp = [] \<or> rp = '')''" by blast
  have "dropWhile is_space (w @ rp) = dropWhile is_space rp"
    using w by (intro dropWhile_append2) (simp add: list_all_iff)
  moreover have "\<not> is_space (CHR '')'')" by (simp add: is_space_def code_unit_def)
  ultimately show "tail_ok u" using rp u by (auto simp: tail_ok_def)
qed

lemma lazy_raw_Some:
  "lazy_raw acc t = Some raw \<Longrightarrow>
   \<exists>u tail. raw = acc @ u \<and> u \<noteq> [] \<and> t = u @ tail
     \<and> list_all (\<lambda>c. \<not> is_line_terminator c) u \<and> tail_ok tail"
proof (induction acc t rule: lazy_raw.induct)
  case (1 raw)
  then show ?case by simp
next
  case (2 acc c cs)
  show ?case
  proof (cases "tail_ok cs")
    case True
    with 2 have "raw = acc @ [c]" "\<not> is_line_terminator c" by (auto split: if_splits)
    with True show ?thesis by (intro exI[of _ "[c]"] exI[of _ cs]) simp
  next
    case False
    with 2 have nl: "\<not> is_line_terminator c" and r: "lazy_raw (acc @ [c]) cs = Some raw"
      by (auto split: if_splits)
    from 2(1)[OF nl False r] obtain u tail where
      "raw = (acc @ [c]) @ u" "u \<noteq> []" "cs = u @ tail"
      "list_all (\<lambda>c. \<not> is_line_terminator c) u" "tail_ok tail" by blast
    with nl show ?thesis by (intro exI[of _ "c # u"] exI[of _ tail]) simp
  qed
qed

lemma lazy_raw_complete:
  "u \<noteq> [] \<Longrightarrow> list_all (\<lambda>c. \<not> is_line_terminator c) u \<Longrightarrow> tail_ok tail \<Longrightarrow>
   lazy_raw acc (u @ tail) \<noteq> None"
proof (induction u arbitrary: acc)
  case Nil
  then show ?case by simp
next
  case (Cons c cs)
  show ?case
  proof (cases "cs = []")
    case True
    with Cons show ?thesis by simp
  next
    case False
    with Cons show ?thesis by simp
  qed
qed

lemma match_rest_from_Some:
  "match_rest_from k r = Some raw \<Longrightarrow> \<exists>j\<le>k. lazy_raw [] (drop j r) = Some raw"
proof (induction k)
  case 0
  then show ?case by simp
next
  case (Suc k)
  show ?case
  proof (cases "lazy_raw [] (drop (Suc k) r)")
    case None
    with Suc obtain j where "j \<le> k" "lazy_raw [] (drop j r) = Some raw" by auto
    then show ?thesis by (intro exI[of _ j]) simp
  next
    case (Some a)
    with Suc show ?thesis by (intro exI[of _ "Suc k"]) simp
  qed
qed

lemma match_rest_from_complete:
  "j \<le> k \<Longrightarrow> lazy_raw [] (drop j r) \<noteq> None \<Longrightarrow> match_rest_from k r \<noteq> None"
proof (induction k)
  case 0
  then show ?case by simp
next
  case (Suc k)
  then show ?case by (cases "j = Suc k") (auto split: option.splits)
qed

lemma takeWhile_spaces_prefix:
  assumes "list_all is_space w"
  shows "length w \<le> length (takeWhile is_space (w @ r))"
proof -
  have "takeWhile is_space (w @ r) = w @ takeWhile is_space r"
    using assms by (intro takeWhile_append2) (simp add: list_all_iff)
  then show ?thesis by simp
qed

lemma match_rest_iff:
  "match_rest r \<noteq> None \<longleftrightarrow>
   (\<exists>w2 raw w3 rp. r = w2 @ raw @ w3 @ rp \<and> list_all is_space w2 \<and> raw \<noteq> []
      \<and> list_all (\<lambda>c. \<not> is_line_terminator c) raw \<and> list_all is_space w3
      \<and> (rp = [] \<or> rp = '')''))"
proof
  assume "match_rest r \<noteq> None"
  then obtain raw where "match_rest_from (length (takeWhile is_space r)) r = Some raw"
    by (auto simp: match_rest_def)
  from match_rest_from_Some[OF this] obtain j where
    j: "j \<le> length (takeWhile is_space r)" and l: "lazy_raw [] (drop j r) = Some raw" by blast
  from lazy_raw_Some[OF l] obtain u tail where
    u: "raw = u" "u \<noteq> []" "drop j r = u @ tail"
    "list_all (\<lambda>c. \<not> is_line_terminator c) u" "tail_ok tail" by auto
  from u(5) obtain w3 rp where t: "tail = w3 @ rp" "list_all is_space w3" "rp = [] \<or> rp = '')''"
    by (auto simp: tail_ok_iff)
  have "take j r = take j (takeWhile is_space r)"
    using j by (metis append_eq_conv_conj takeWhile_dropWhile_id take_all take_append diff_is_0_eq' take_0 append_Nil2)
  then have sp: "list_all is_space (take j r)"
    by (simp add: list_all_iff) (meson in_set_takeD set_takeWhileD)
  have "r = take j r @ u @ w3 @ rp" using u(3) t(1) by (metis append_take_drop_id)
  with sp u t show "\<exists>w2 raw w3 rp. r = w2 @ raw @ w3 @ rp \<and> list_all is_space w2 \<and> raw \<noteq> []
      \<and> list_all (\<lambda>c. \<not> is_line_terminator c) raw \<and> list_all is_space w3
      \<and> (rp = [] \<or> rp = '')'')" by blast
next
  assume "\<exists>w2 raw w3 rp. r = w2 @ raw @ w3 @ rp \<and> list_all is_space w2 \<and> raw \<noteq> []
      \<and> list_all (\<lambda>c. \<not> is_line_terminator c) raw \<and> list_all is_space w3
      \<and> (rp = [] \<or> rp = '')'')"
  then obtain w2 raw w3 rp where r: "r = w2 @ raw @ w3 @ rp" and w2: "list_all is_space w2"
    and raw: "raw \<noteq> []" "list_all (\<lambda>c. \<not> is_line_terminator c) raw"
    and w3: "list_all is_space w3" and rp: "rp = [] \<or> rp = '')''" by blast
  have "tail_ok (w3 @ rp)" using w3 rp by (auto simp: tail_ok_iff)
  from lazy_raw_complete[OF raw this, of "[]"]
  have "lazy_raw [] (drop (length w2) r) \<noteq> None" by (simp add: r)
  moreover have "length w2 \<le> length (takeWhile is_space r)"
    unfolding r by (rule takeWhile_spaces_prefix[OF w2])
  ultimately show "match_rest r \<noteq> None"
    unfolding match_rest_def by (rule match_rest_from_complete[rotated])
qed

lemma match_operator_Some:
  "match_operator ops s = Some (op, raw) \<Longrightarrow>
   op \<in> set ops \<and> (\<exists>r. s = op @ r \<and> match_rest r = Some raw)"
  by (induction ops s rule: match_operator.induct)
    (auto split: if_splits option.splits simp: starts_with_iff)

lemma match_operator_complete:
  "op \<in> set ops \<Longrightarrow> match_rest r \<noteq> None \<Longrightarrow> match_operator ops (op @ r) \<noteq> None"
proof (induction ops)
  case Nil
  then show ?case by simp
next
  case (Cons a ops)
  show ?case
  proof (cases "a = op")
    case True
    with Cons.prems(2) show ?thesis by (auto simp: starts_with_iff split: option.splits)
  next
    case False
    with Cons show ?thesis by (auto split: option.splits)
  qed
qed

lemma span_stop:
  assumes "list_all P xs" and "ys = [] \<or> \<not> P (hd ys)"
  shows "takeWhile P (xs @ ys) = xs" and "dropWhile P (xs @ ys) = ys"
proof -
  have t: "takeWhile P ys = []" and d: "dropWhile P ys = ys"
    using assms(2) by (cases ys; simp)+
  show "takeWhile P (xs @ ys) = xs"
    using assms(1) t by (simp add: takeWhile_append2 list_all_iff)
  show "dropWhile P (xs @ ys) = ys"
    using assms(1) d by (simp add: dropWhile_append2 list_all_iff)
qed

lemma operator_head:
  assumes "op \<in> set operators"
  shows "op \<noteq> [] \<and> \<not> is_word (hd op) \<and> \<not> is_space (hd op)"
  using assms
  by (auto simp: operators_def is_word_def is_digit_def is_space_def code_unit_def)

lemma space_not_word: "is_space c \<Longrightarrow> \<not> is_word c"
  by (auto simp: is_space_def is_word_def is_digit_def)

lemma filter_match_sound:
  assumes "filter_match s = Some (field, op, raw)"
  shows "matches_pattern s"
proof -
  define lp where "lp = (if starts_with s ''('' then ''('' else [])"
  define s1 where "s1 = (if starts_with s ''('' then tl s else s)"
  define w0 where "w0 = takeWhile is_space s1"
  define s2 where "s2 = dropWhile is_space s1"
  define s3 where "s3 = drop 2 s2"
  define s4 where "s4 = dropWhile is_word s3"
  define w1 where "w1 = takeWhile is_space s4"
  define s5 where "s5 = dropWhile is_space s4"
  have s: "s = lp @ s1" by (auto simp: lp_def s1_def starts_with_iff)
  have s1: "s1 = w0 @ s2" by (simp add: w0_def s2_def)
  have w0: "list_all is_space w0"
    by (simp add: w0_def list_all_iff) (meson set_takeWhileD)
  have fm: "filter_match s =
      (if starts_with s2 ''@.'' then
         (if takeWhile is_word s3 = [] then None
          else map_option (\<lambda>(op, raw). (takeWhile is_word s3, op, raw))
                 (match_operator operators s5))
       else None)"
    by (simp add: filter_match_def Let_def s1_def s2_def s3_def s4_def s5_def)
  from assms fm have at: "starts_with s2 ''@.''" by (auto split: if_splits)
  then have s2: "s2 = ''@.'' @ s3" by (auto simp: starts_with_iff s3_def)
  from assms fm at have f: "field = takeWhile is_word s3" "field \<noteq> []"
    and m: "match_operator operators s5 = Some (op, raw)"
    by (auto split: if_splits)
  have s3: "s3 = field @ s4" by (simp add: f(1) s4_def)
  have fw: "list_all is_word field"
    by (simp add: f(1) list_all_iff) (meson set_takeWhileD)
  have s4: "s4 = w1 @ s5" by (simp add: w1_def s5_def)
  have w1: "list_all is_space w1"
    by (simp add: w1_def list_all_iff) (meson set_takeWhileD)
  from match_operator_Some[OF m] obtain r where
    op: "op \<in> set operators" and s5: "s5 = op @ r" and mr: "match_rest r = Some raw" by blast
  from mr have "match_rest r \<noteq> None" by simp
  then obtain w2 raw' w3 rp where r: "r = w2 @ raw' @ w3 @ rp" and w2: "list_all is_space w2"
    and raw: "raw' \<noteq> []" "list_all (\<lambda>c. \<not> is_line_terminator c) raw'"
    and w3: "list_all is_space w3" and rp: "rp = [] \<or> rp = '')''"
    unfolding match_rest_iff by blast
  have "s = lp @ w0 @ ''@.'' @ field @ w1 @ op @ w2 @ raw' @ w3 @ rp"
    using s s1 s2 s3 s4 s5 r by simp
  moreover have "lp = [] \<or> lp = ''(''" by (simp add: lp_def)
  ultimately show ?thesis
    unfolding matches_pattern_def using w0 f(2) fw w1 op w2 raw w3 rp by blast
qed

lemma filter_match_complete:
  assumes "matches_pattern s"
  shows "filter_match s \<noteq> None"
proof -
  from assms obtain lp w0 field w1 op w2 raw w3 rp where
    s: "s = lp @ w0 @ ''@.'' @ field @ w1 @ op @ w2 @ raw @ w3 @ rp"
    and lp: "lp = [] \<or> lp = ''(''"
    and w0: "list_all is_space w0"
    and f: "field \<noteq> []" "list_all is_word field"
    and w1: "list_all is_space w1"
    and op: "op \<in> set operators"
    and w2: "list_all is_space w2"
    and raw: "raw \<noteq> []" "list_all (\<lambda>c. \<not> is_line_terminator c) raw"
    and w3: "list_all is_space w3"
    and rp: "rp = [] \<or> rp = '')''"
    unfolding matches_pattern_def by blast
  define r where "r = w2 @ raw @ w3 @ rp"
  define s3 where "s3 = field @ w1 @ op @ r"
  define s1 where "s1 = w0 @ ''@.'' @ s3"
  have sp: "\<not> is_space (CHR ''@'')" "\<not> is_space (CHR ''('')"
    by (simp_all add: is_space_def code_unit_def)
  have "\<not> starts_with s1 ''(''"
  proof (cases w0)
    case Nil
    then show ?thesis by (simp add: s1_def)
  next
    case (Cons c cs)
    with w0 sp(2) show ?thesis by (auto simp: s1_def)
  qed
  then have strip: "(if starts_with s ''('' then tl s else s) = s1"
    using lp by (auto simp: s s1_def s3_def r_def)
  have d0: "dropWhile is_space s1 = ''@.'' @ s3"
    unfolding s1_def using span_stop(2)[OF w0, of "''@.'' @ s3"] sp(1) by simp
  note oh = operator_head[OF op]
  have stop_w: "w1 @ op @ r = [] \<or> \<not> is_word (hd (w1 @ op @ r))"
  proof (cases w1)
    case Nil
    with oh show ?thesis by simp
  next
    case (Cons c cs)
    with w1 show ?thesis by (simp add: space_not_word)
  qed
  have tf: "takeWhile is_word s3 = field" and df: "dropWhile is_word s3 = w1 @ op @ r"
    unfolding s3_def using span_stop[OF f(2) stop_w] by simp_all
  have d1: "dropWhile is_space (w1 @ op @ r) = op @ r"
    using span_stop(2)[OF w1, of "op @ r"] oh by simp
  have "match_rest r \<noteq> None"
    unfolding match_rest_iff r_def using w2 raw w3 rp by blast
  from match_operator_complete[OF op this]
  obtain x where x: "match_operator operators (op @ r) = Some x" by auto
  have "filter_match s =
      map_option (\<lambda>(op, raw). (field, op, raw)) (match_operator operators (op @ r))"
    using f(1) by (simp add: filter_match_def Let_def strip d0 tf df d1)
  with x show ?thesis by simp
qed

lemma filter_match_None_iff: "filter_match s = None \<longleftrightarrow> \<not> matches_pattern s"
proof (cases "filter_match s")
  case None
  with filter_match_complete[of s] show ?thesis by auto
next
  case (Some x)
  then show ?thesis using filter_match_sound[of s "fst x" "fst (snd x)" "snd (snd x)"] by simp
qed

lemma is_primitive_if:
  "is_primitive a \<Longrightarrow> is_primitive b \<Longrightarrow> is_primitive (if c then a else b)"
  by simp

lemma compare_value_primitive: "is_primitive (compare_value raw)"
  unfolding compare_value_def
  by (intro is_primitive_if) (simp_all split: option.split)

lemma strict_equal_primitive: "is_primitive c \<Longrightarrow> strict_equal v c = (v = c)"
  by (cases v; cases c) auto

lemma numbers_related_iff:
  "numbers_related R v w = (\<exists>a b. v = JNum a \<and> w = JNum b \<and> R a b)"
  by (cases "(R, v, w)" rule: numbers_related.cases) auto

lemma get_property_object: "get_property item field = Some v \<Longrightarrow> is_plain_object item"
  by (cases item) auto

text \<open>
  Claim C5. Let the filter source match with groups \<open>field\<close>, \<open>op\<close> and
  \<open>rawValue\<close>, and let the candidate object have the value \<open>fieldVal\<close> under
  \<open>field\<close>. Then \<^verbatim>\<open>==\<close> holds exactly when the field value and the decoded literal
  are the same value of the same variant, \<^verbatim>\<open>!=\<close> exactly when they are not, and each of
  \<^verbatim>\<open>>\<close>, \<^verbatim>\<open><\<close>, \<^verbatim>\<open>>=\<close>, \<^verbatim>\<open><=\<close> exactly when both are Numbers in that
  order: with any other variant on either side the result is false. A Number field
  against a string literal is therefore unequal, and unordered.
\<close>

theorem comparison_semantics:
  assumes "filter_match source = Some (field, op, rawValue)"
      and "get_property item field = Some fieldVal"
  shows "(op = ''=='' \<longrightarrow> evaluateFilter item source = (fieldVal = compare_value rawValue))
       \<and> (op = ''!='' \<longrightarrow> evaluateFilter item source = (fieldVal \<noteq> compare_value rawValue))
       \<and> (op = ''>'' \<longrightarrow> evaluateFilter item source =
            (\<exists>a b. fieldVal = JNum a \<and> compare_value rawValue = JNum b \<and> number_less b a))
       \<and> (op = ''<'' \<longrightarrow> evaluateFilter item source =
            (\<exists>a b. fieldVal = JNum a \<and> compare_value rawValue = JNum b \<and> number_less a b))
       \<and> (op = ''>='' \<longrightarrow> evaluateFilter item source =
            (\<exists>a b. fieldVal = JNum a \<and> compare_value rawValue = JNum b \<and> number_le b a))
       \<and> (op = ''<='' \<longrightarrow> evaluateFilter item source =
            (\<exists>a b. fieldVal = JNum a \<and> compare_value rawValue = JNum b \<and> number_le a b))
       \<and> ((\<exists>n. fieldVal = JNum n) \<and> (\<exists>t. compare_value rawValue = JStr t) \<longrightarrow>
            evaluateFilter item source = (op = ''!=''))"
proof -
  have ev: "evaluateFilter item source = compare_switch op fieldVal (compare_value rawValue)"
    using assms get_property_object[OF assms(2)] by (simp add: evaluateFilter_def)
  have eq: "strict_equal fieldVal (compare_value rawValue) = (fieldVal = compare_value rawValue)"
    by (rule strict_equal_primitive[OF compare_value_primitive])
  have 1: "op = ''=='' \<longrightarrow> evaluateFilter item source = (fieldVal = compare_value rawValue)"
    unfolding ev by (simp add: compare_switch_def eq)
  have 2: "op = ''!='' \<longrightarrow> evaluateFilter item source = (fieldVal \<noteq> compare_value rawValue)"
    unfolding ev by (simp add: compare_switch_def eq)
  have 3: "op = ''>'' \<longrightarrow> evaluateFilter item source =
      (\<exists>a b. fieldVal = JNum a \<and> compare_value rawValue = JNum b \<and> number_less b a)"
    unfolding ev by (simp add: compare_switch_def numbers_related_iff)
  have 4: "op = ''<'' \<longrightarrow> evaluateFilter item source =
      (\<exists>a b. fieldVal = JNum a \<and> compare_value rawValue = JNum b \<and> number_less a b)"
    unfolding ev by (simp add: compare_switch_def numbers_related_iff)
  have 5: "op = ''>='' \<longrightarrow> evaluateFilter item source =
      (\<exists>a b. fieldVal = JNum a \<and> compare_value rawValue = JNum b \<and> number_le b a)"
    unfolding ev by (simp add: compare_switch_def numbers_related_iff)
  have 6: "op = ''<='' \<longrightarrow> evaluateFilter item source =
      (\<exists>a b. fieldVal = JNum a \<and> compare_value rawValue = JNum b \<and> number_le a b)"
    unfolding ev by (simp add: compare_switch_def numbers_related_iff)
  have 7: "(\<exists>n. fieldVal = JNum n) \<and> (\<exists>t. compare_value rawValue = JStr t) \<longrightarrow>
      evaluateFilter item source = (op = ''!='')"
  proof (intro impI, elim conjE exE)
    fix n t
    assume f: "fieldVal = JNum n" and c: "compare_value rawValue = JStr t"
    show "evaluateFilter item source = (op = ''!='')"
      unfolding ev f c by (simp add: compare_switch_def)
  qed
  from 1 2 3 4 5 6 7 show ?thesis by blast
qed

lemma js_Number_21: "js_Number ''21'' = Some (Finite 21)"
  using round_double_exact[of 21]
  by (simp add: js_Number_def trim_def is_space_def code_unit_def unsigned_decimal_def
      is_digit_def exponent_part_def digits_value_def digit_value_def Let_def)

theorem comparison_semantics_witness:
  "filter_match ''(@.age>21)'' = Some (''age'', ''>'', ''21'')
   \<and> get_property (JObj [(''age'', JNum (Finite 30))]) ''age'' = Some (JNum (Finite 30))
   \<and> evaluateFilter (JObj [(''age'', JNum (Finite 30))]) ''(@.age>21)''
   \<and> filter_match ''@.age == \"30\"'' = Some (''age'', ''=='', ''\"30\"'')
   \<and> \<not> evaluateFilter (JObj [(''age'', JNum (Finite 30))]) ''@.age == \"30\"''"
proof -
  have m: "filter_match ''(@.age>21)'' = Some (''age'', ''>'', ''21'')" by code_simp
  have m2: "filter_match ''@.age == \"30\"'' = Some (''age'', ''=='', ''\"30\"'')" by code_simp
  have g: "get_property (JObj [(''age'', JNum (Finite 30))]) ''age'' = Some (JNum (Finite 30))"
    by simp
  have c: "compare_value ''21'' = JNum (Finite 21)"
    by (simp add: compare_value_def js_Number_21 is_quote_def)
  have c2: "compare_value ''\"30\"'' = JStr ''30''"
    by (simp add: compare_value_def is_quote_def strip_quotes_def)
  from comparison_semantics[OF m g] comparison_semantics[OF m2 g] m m2 g c c2
  show ?thesis by simp
qed

lemma spec_filter_grammar_matches_pattern:
  assumes "spec_filter_grammar s" and "list_all (\<lambda>c. \<not> is_line_terminator c) s"
  shows "matches_pattern s"
proof -
  from assms(1) obtain lp field w1 op w2 literal w3 rp where
    s: "s = lp @ ''@.'' @ field @ w1 @ op @ w2 @ literal @ w3 @ rp"
    and r: "lp = [] \<or> lp = ''(''" "field \<noteq> []" "list_all is_word field"
      "list_all is_space w1" "op \<in> set operators" "list_all is_space w2" "literal \<noteq> []"
      "list_all is_space w3" "rp = [] \<or> rp = '')''"
    unfolding spec_filter_grammar_def by blast
  from assms(2) s have l: "list_all (\<lambda>c. \<not> is_line_terminator c) literal" by simp
  have "s = lp @ [] @ ''@.'' @ field @ w1 @ op @ w2 @ literal @ w3 @ rp" using s by simp
  moreover have "list_all is_space []" by simp
  ultimately show ?thesis unfolding matches_pattern_def using r l by blast
qed

text \<open>
  Claim C6 says that a filter source that does not match the filter grammar selects
  nothing. The grammar of the specification has no white space between the optional
  \<^verbatim>\<open>(\<close> and \<^verbatim>\<open>@.\<close>; the regular expression of line 232 has \<^verbatim>\<open>\s*\<close> there. So
  the source \<^verbatim>\<open>( @.age>21)\<close> is outside the grammar, and yet it is parsed like
  \<^verbatim>\<open>(@.age>21)\<close>: the predicate is true of an object whose age is 30, and the query
  \<^verbatim>\<open>$[?( @.age>21)]\<close> selects that object.
\<close>

theorem space_before_field_is_parsed:
  "\<not> spec_filter_grammar ''( @.age>21)''
   \<and> evaluateFilter (JObj [(''age'', JNum (Finite 30))]) ''( @.age>21)'' = True
   \<and> queryJsonPath
         (JArr [JObj [(''age'', JNum (Finite 30))], JObj [(''age'', JNum (Finite 17))]])
         ''$[?( @.age>21)]'' = Some (Inr [JObj [(''age'', JNum (Finite 30))]])"
proof -
  have g: "\<not> spec_filter_grammar ''( @.age>21)''"
    by (auto simp: spec_filter_grammar_def)
  have m: "filter_match ''( @.age>21)'' = Some (''age'', ''>'', ''21'')" by code_simp
  have c: "compare_value ''21'' = JNum (Finite 21)"
    by (simp add: compare_value_def js_Number_21 is_quote_def)
  have e30: "evaluateFilter (JObj [(''age'', JNum (Finite 30))]) ''( @.age>21)'' = True"
    by (simp add: evaluateFilter_def m c compare_switch_def)
  have e17: "evaluateFilter (JObj [(''age'', JNum (Finite 17))]) ''( @.age>21)'' = False"
    by (simp add: evaluateFilter_def m c compare_switch_def)
  have t: "tokenize ''[?( @.age>21)]'' = [\<lparr>ttype = TFilter, tvalue = ''( @.age>21)''\<rparr>]"
    by (simp add: tokenize_def bracket_token_def)
  have q: "queryJsonPath
         (JArr [JObj [(''age'', JNum (Finite 30))], JObj [(''age'', JNum (Finite 17))]])
         ''$[?( @.age>21)]'' = Some (Inr [JObj [(''age'', JNum (Finite 30))]])"
    by (simp add: queryJsonPath_def t applyToken_def apply_input_def e30 e17)
  from g e30 q show ?thesis by simp
qed

text \<open>
  Claim C6 as amended. When the filter source is not in the language of the regular
  expression of line 232 (\<^const>\<open>matches_pattern\<close>: the grammar of the specification
  with white space also admitted between the optional \<^verbatim>\<open>(\<close> and \<^verbatim>\<open>@.\<close>, and a
  literal free of line terminators), the predicate is false for every candidate, so a
  Filter token with that source adds nothing for an array input, and applying it
  returns (the empty list for one array): nothing is thrown.
\<close>

theorem unparseable_filter_selects_nothing:
  assumes "\<not> matches_pattern source"
  shows "evaluateFilter item source = False
       \<and> apply_input \<lparr>ttype = TFilter, tvalue = source\<rparr> (JArr xs) results = Some results
       \<and> applyToken [JArr xs] \<lparr>ttype = TFilter, tvalue = source\<rparr> = Some []"
proof -
  from assms have "filter_match source = None" by (simp add: filter_match_None_iff)
  then show ?thesis by (simp add: evaluateFilter_def apply_input_def applyToken_def)
qed

theorem unparseable_filter_witness:
  "\<not> matches_pattern ''(@.age)''
   \<and> queryJsonPath (JArr [JObj [(''age'', JNum (Finite 30))]]) ''$[?(@.age)]'' = Some (Inr [])"
proof -
  have "filter_match ''(@.age)'' = None" by code_simp
  then have m: "\<not> matches_pattern ''(@.age)''" by (simp add: filter_match_None_iff)
  have t: "tokenize ''[?(@.age)]'' = [\<lparr>ttype = TFilter, tvalue = ''(@.age)''\<rparr>]"
    by (simp add: tokenize_def bracket_token_def)
  from unparseable_filter_selects_nothing[OF m, of _ "[JObj [(''age'', JNum (Finite 30))]]"] m t
  show ?thesis by (simp add: queryJsonPath_def)
qed

section \<open>Slices\<close>

lemma slice_indices_rec:
  assumes "0 < step"
  shows "slice_indices start stop step =
         (if start < stop then start # slice_indices (start + step) stop step else [])"
proof (cases "start < stop")
  case False
  then have "stop - start + step - 1 < step" by simp
  then have "(stop - start + step - 1) div step \<le> 0"
    using assms by (metis div_pos_pos_trivial nle_le pos_imp_zdiv_nonneg_iff)
  with False show ?thesis by (simp add: slice_indices_def)
next
  case True
  define n where "n = (stop - start + step - 1) div step"
  define n' where "n' = (stop - (start + step) + step - 1) div step"
  have "step \<le> stop - start + step - 1" using True by simp
  then have n1: "1 \<le> n"
    unfolding n_def using assms int_one_le_iff_zero_less pos_imp_zdiv_pos_iff by blast
  have "(stop - (start + step) + step - 1 + step) div step = n' + 1"
    unfolding n'_def using assms by (subst div_add_self2) simp_all
  then have "n = n' + 1" by (simp add: n_def algebra_simps)
  with n1 have nat: "nat n = Suc (nat n')" by simp
  have "slice_indices start stop step = map (\<lambda>k. start + int k * step) [0..<Suc (nat n')]"
    by (simp add: slice_indices_def n_def[symmetric] nat)
  also have "\<dots> = start # map (\<lambda>k. start + step + int k * step) [0..<nat n']"
    by (simp only: map_upt_Suc) (simp add: algebra_simps)
  also have "map (\<lambda>k. start + step + int k * step) [0..<nat n'] =
      slice_indices (start + step) stop step"
    by (simp add: slice_indices_def n'_def)
  finally show ?thesis using True by simp
qed

text \<open>
  The indices of a slice are the \<open>i\<close> in \<open>[start, stop)\<close> congruent to \<open>start\<close>
  modulo the step, in increasing order.
\<close>

lemma slice_indices_set:
  assumes "0 < st"
  shows "set (slice_indices s e st) = {i. s \<le> i \<and> i < e \<and> (i - s) mod st = 0}"
proof (induction "nat (e - s)" arbitrary: s rule: less_induct)
  case less
  show ?case
  proof (cases "s < e")
    case False
    then show ?thesis by (subst slice_indices_rec[OF assms]) auto
  next
    case True
    have "nat (e - (s + st)) < nat (e - s)" using True assms by simp
    from less[OF this]
    have IH: "set (slice_indices (s + st) e st) =
        {i. s + st \<le> i \<and> i < e \<and> (i - (s + st)) mod st = 0}" .
    have m: "(i - (s + st)) mod st = (i - s) mod st" for i
      by (metis add.commute diff_add_eq_diff_diff_swap minus_mod_self2)
    have "{i. s \<le> i \<and> i < e \<and> (i - s) mod st = 0} =
        insert s {i. s + st \<le> i \<and> i < e \<and> (i - s) mod st = 0}"
    proof (intro set_eqI iffI)
      fix i
      assume "i \<in> {i. s \<le> i \<and> i < e \<and> (i - s) mod st = 0}"
      then have i: "s \<le> i" "i < e" "(i - s) mod st = 0" by auto
      show "i \<in> insert s {i. s + st \<le> i \<and> i < e \<and> (i - s) mod st = 0}"
      proof (cases "i = s")
        case False
        have "st \<le> i - s"
        proof (rule ccontr)
          assume "\<not> st \<le> i - s"
          then have "(i - s) mod st = i - s" using i(1) by simp
          with i(3) False show False by simp
        qed
        with i show ?thesis by simp
      qed simp
    next
      fix i
      assume "i \<in> insert s {i. s + st \<le> i \<and> i < e \<and> (i - s) mod st = 0}"
      then show "i \<in> {i. s \<le> i \<and> i < e \<and> (i - s) mod st = 0}"
        using True assms by auto
    qed
    then show ?thesis
      using True by (subst slice_indices_rec[OF assms]) (simp add: IH m)
  qed
qed

lemma slice_indices_sorted:
  assumes "0 < st"
  shows "sorted_wrt (<) (slice_indices s e st)"
proof (induction "nat (e - s)" arbitrary: s rule: less_induct)
  case less
  show ?case
  proof (cases "s < e")
    case False
    then show ?thesis by (subst slice_indices_rec[OF assms]) simp
  next
    case True
    have "nat (e - (s + st)) < nat (e - s)" using True assms by simp
    from less[OF this] have "sorted_wrt (<) (slice_indices (s + st) e st)" .
    moreover have "\<forall>i\<in>set (slice_indices (s + st) e st). s < i"
      using assms by (auto simp: slice_indices_set[OF assms])
    ultimately show ?thesis
      using True by (subst slice_indices_rec[OF assms]) simp
  qed
qed

lemma round_int_exact: "\<bar>n\<bar> < 2 ^ 53 \<Longrightarrow> round_int n = IntVal n"
  by (simp add: round_int_def)

lemma round_int_large:
  assumes "2 ^ 53 \<le> n"
  shows "round_int n = PosInf \<or> (\<exists>v. round_int n = IntVal v \<and> 2 ^ 53 \<le> v)"
proof -
  define k where "k = nat (bitlen n) - 53"
  define q where "q = n div 2 ^ k"
  define m where "m = (if n mod 2 ^ k < 2 ^ (k - 1) \<or> (n mod 2 ^ k = 2 ^ (k - 1) \<and> even q) then q else q + 1)"
  have npos: "0 < n" using assms by (rule less_le_trans[rotated]) simp
  have "54 \<le> bitlen n" using assms by (simp add: bitlen_ge_iff_power)
  then have k: "nat (bitlen n - 1) = k + 52" "1 \<le> k" by (simp_all add: k_def)
  have "2 ^ (k + 52) \<le> n" using bitlen_bounds[OF npos] k(1) by simp
  then have "2 ^ 52 * 2 ^ k \<le> n" by (simp add: power_add mult.commute)
  then have "2 ^ 52 \<le> q"
    unfolding q_def by (metis div_mult_self_is_m zdiv_mono1 zero_less_numeral zero_less_power mult.commute nonzero_mult_div_cancel_right power_not_zero zero_neq_numeral)
  moreover have "q \<le> m" by (simp add: m_def)
  ultimately have m52: "2 ^ 52 \<le> m" by linarith
  have "(2::int) ^ 1 \<le> 2 ^ k" using k(2) by (intro power_increasing) simp_all
  then have "(2::int) \<le> 2 ^ k" by simp
  with m52 have "2 ^ 52 * 2 \<le> m * 2 ^ k"
    by (intro mult_mono) simp_all
  then have v: "2 ^ 53 \<le> m * 2 ^ k" by simp
  have a: "\<bar>n\<bar> = n" "\<not> n < 2 ^ 53" "\<not> n < 0" using assms npos by simp_all
  show ?thesis
    using v a(2,3) unfolding m_def
    by (auto simp: round_int_def Let_def a(1) k_def[symmetric] q_def[symmetric] split: if_splits)
qed

lemma round_int_small:
  assumes "n \<le> - (2 ^ 53)"
  shows "round_int n = NegInf \<or> (\<exists>v. round_int n = IntVal v \<and> v \<le> - (2 ^ 53))"
proof -
  have neg: "round_int n = (case round_int (- n) of IntVal v \<Rightarrow> IntVal (- v) | PosInf \<Rightarrow> NegInf | NegInf \<Rightarrow> PosInf | NaN \<Rightarrow> NaN)"
    if "n \<noteq> 0" for n
    using that by (auto simp: round_int_def Let_def)
  have "n \<noteq> 0" using assms by auto
  from neg[OF this] round_int_large[of "- n"] assms show ?thesis by auto
qed

lemma push_element_IntVal:
  "push_element xs (IntVal i) rs = rs @ elements_in_range xs [i]"
  by (simp add: push_element_def elements_in_range_def)

lemma slice_loop_positive_step:
  assumes "0 < st" and "\<bar>s\<bar> < 2 ^ 53" and "\<bar>e\<bar> < 2 ^ 53"
  shows "slice_loop xs (IntVal s) (IntVal e) (IntVal st) rs =
         Some (rs @ elements_in_range xs (slice_indices s e st))"
  using assms(2)
proof (induction "nat (e - s)" arbitrary: s rs rule: less_induct)
  case less
  show ?case
  proof (cases "s < e")
    case False
    then show ?thesis
      by (subst slice_loop.simps) (simp add: slice_indices_rec[OF assms(1)] elements_in_range_def)
  next
    case True
    have unfold: "slice_loop xs (IntVal s) (IntVal e) (IntVal st) rs =
        slice_loop xs (round_int (s + st)) (IntVal e) (IntVal st) (rs @ elements_in_range xs [s])"
      using True by (subst slice_loop.simps) (simp add: push_element_IntVal)
    have idx: "slice_indices s e st = s # slice_indices (s + st) e st"
      using True by (subst slice_indices_rec[OF assms(1)]) simp
    show ?thesis
    proof (cases "\<bar>s + st\<bar> < 2 ^ 53")
      case small: True
      have "nat (e - (s + st)) < nat (e - s)" using True assms(1) by simp
      from less.hyps[OF this small, of "rs @ elements_in_range xs [s]"]
      show ?thesis
        unfolding unfold round_int_exact[OF small] idx
        by (simp add: elements_in_range_def)
    next
      case False
      then have big: "2 ^ 53 \<le> s + st" using less.prems assms(1) by simp
      then have "\<not> s + st < e" using assms(3) by simp
      then have nil: "slice_indices (s + st) e st = []"
        by (subst slice_indices_rec[OF assms(1)]) simp
      have "\<not> intnum_less (round_int (s + st)) (IntVal e)"
        using round_int_large[OF big] assms(3) by auto
      then have "slice_loop xs (round_int (s + st)) (IntVal e) (IntVal st)
          (rs @ elements_in_range xs [s]) = Some (rs @ elements_in_range xs [s])"
        by (subst slice_loop.simps) simp
      then show ?thesis
        unfolding unfold idx nil by (simp add: elements_in_range_def)
    qed
  qed
qed

lemma slice_loop_diverges:
  assumes inv: "\<And>si. I si \<Longrightarrow> intnum_less si endv \<and> I (intnum_add si step)"
      and start: "I si"
  shows "slice_loop xs si endv step rs = None"
proof (rule ccontr)
  assume "slice_loop xs si endv step rs \<noteq> None"
  then obtain y where y: "slice_loop xs si endv step rs = Some y" by auto
  have "endv = endv \<and> step = step \<longrightarrow> \<not> I si"
  proof (rule slice_loop.raw_induct[where
        P = "\<lambda>input si' endv' step' results y. endv' = endv \<and> step' = step \<longrightarrow> \<not> I si'",
        OF _ y])
    fix f input si' endv' step' results y'
    assume IH: "\<And>a b c d e z. f a b c d e = Some z \<Longrightarrow> c = endv \<and> d = step \<longrightarrow> \<not> I b"
      and body: "(if intnum_less si' endv'
                  then f input (intnum_add si' step') endv' step' (push_element input si' results)
                  else Some results) = Some y'"
    show "endv' = endv \<and> step' = step \<longrightarrow> \<not> I si'"
    proof (intro impI notI, elim conjE)
      assume eq: "endv' = endv" "step' = step" and i: "I si'"
      from inv[OF i] have l: "intnum_less si' endv'" and n: "I (intnum_add si' step')"
        using eq by simp_all
      from body l have "f input (intnum_add si' step') endv' step'
          (push_element input si' results) = Some y'" by simp
      from IH[OF this] eq n show False by simp
    qed
  qed
  with start show False by simp
qed

lemma slice_loop_nonpositive_step:
  assumes "st \<le> 0" and "s < e" and "\<bar>s\<bar> < 2 ^ 53" and "\<bar>e\<bar> < 2 ^ 53"
  shows "slice_loop xs (IntVal s) (IntVal e) (IntVal st) rs = None"
proof (cases "st = 0")
  case True
  show ?thesis
  proof (rule slice_loop_diverges[where I = "\<lambda>si. si = IntVal s"])
    fix si assume "si = IntVal s"
    then show "intnum_less si (IntVal e) \<and> intnum_add si (IntVal st) = IntVal s"
      using assms(2,3) True by (simp add: round_int_exact)
  qed simp
next
  case False
  then have neg: "st < 0" using assms(1) by simp
  show ?thesis
  proof (rule slice_loop_diverges[where I = "\<lambda>si. si = NegInf \<or> (\<exists>v. si = IntVal v \<and> v < e)"])
    fix si assume "si = NegInf \<or> (\<exists>v. si = IntVal v \<and> v < e)"
    then show "intnum_less si (IntVal e) \<and>
        (intnum_add si (IntVal st) = NegInf \<or> (\<exists>v. intnum_add si (IntVal st) = IntVal v \<and> v < e))"
    proof
      assume "si = NegInf"
      then show ?thesis by simp
    next
      assume "\<exists>v. si = IntVal v \<and> v < e"
      then obtain v where v: "si = IntVal v" "v < e" by blast
      show ?thesis
      proof (cases "\<bar>v + st\<bar> < 2 ^ 53")
        case True
        then show ?thesis using v neg by (simp add: round_int_exact)
      next
        case False
        then have "v + st \<le> - (2 ^ 53)" using v neg assms(4) by simp
        from round_int_small[OF this] show ?thesis using v assms(4) by auto
      qed
    qed
  next
    show "IntVal s = NegInf \<or> (\<exists>v. IntVal s = IntVal v \<and> v < e)" using assms(2) by simp
  qed
qed

text \<open>The loop ends under the sufficient condition.\<close>

lemma slice_loop_benign:
  assumes "benign start endv step"
  shows "\<exists>rs'. slice_loop xs start endv step rs = Some rs'"
proof (cases "intnum_less start endv")
  case False
  then show ?thesis by (subst slice_loop.simps) simp
next
  case True
  show ?thesis
  proof (cases step)
    case NaN
    have "intnum_add start NaN = NaN" by (cases start) simp_all
    then have "slice_loop xs (intnum_add start step) endv step (push_element xs start rs) =
        Some (push_element xs start rs)"
      using NaN by (subst slice_loop.simps) simp
    with True show ?thesis by (subst slice_loop.simps) simp
  next
    case PosInf
    have "intnum_add start PosInf = PosInf \<or> intnum_add start PosInf = NaN"
      by (cases start) simp_all
    then have "\<not> intnum_less (intnum_add start step) endv"
      using PosInf by (cases endv) auto
    then have "slice_loop xs (intnum_add start step) endv step (push_element xs start rs) =
        Some (push_element xs start rs)"
      by (subst slice_loop.simps) simp
    with True show ?thesis by (subst slice_loop.simps) simp
  next
    case NegInf
    with assms True show ?thesis by simp
  next
    case (IntVal st)
    with assms True obtain s e where "start = IntVal s" "endv = IntVal e"
      "0 < st" "\<bar>s\<bar> < 2 ^ 53" "\<bar>e\<bar> < 2 ^ 53"
      by (cases start; cases endv) auto
    with slice_loop_positive_step[of st s e xs rs] IntVal show ?thesis by simp
  qed
qed

lemma split_colon_from_plain:
  "CHR '':'' \<notin> set a \<Longrightarrow> split_colon_from cur (a @ rest) = split_colon_from (cur @ a) rest"
  by (induction a arbitrary: cur) auto

lemma split_colon_three:
  assumes "CHR '':'' \<notin> set a" and "CHR '':'' \<notin> set b" and "CHR '':'' \<notin> set c"
  shows "split_colon (a @ CHR '':'' # b @ CHR '':'' # c) = [a, b, c]"
  using split_colon_from_plain[OF assms(1), of "[]" "CHR '':'' # b @ CHR '':'' # c"]
    split_colon_from_plain[OF assms(2), of "[]" "CHR '':'' # c"]
    split_colon_from_plain[OF assms(3), of "[]" "[]"]
  by (simp add: split_colon_def)

lemma split_colon_two:
  assumes "CHR '':'' \<notin> set a" and "CHR '':'' \<notin> set b"
  shows "split_colon (a @ CHR '':'' # b) = [a, b]"
  using split_colon_from_plain[OF assms(1), of "[]" "CHR '':'' # b"]
    split_colon_from_plain[OF assms(2), of "[]" "[]"]
  by (simp add: split_colon_def)

lemma slice_part_nullish:
  "k < length pieces \<Longrightarrow>
   nullish (slice_part pieces k) d = (if pieces ! k = [] then d else parseInt (pieces ! k))"
  "length pieces \<le> k \<Longrightarrow> nullish (slice_part pieces k) d = d"
  by (simp_all add: slice_part_def nullish_def)

lemma parseInt_small_digits [simp]:
  "parseInt ''1'' = IntVal 1" "parseInt ''2'' = IntVal 2" "parseInt ''3'' = IntVal 3"
  "parseInt ''5'' = IntVal 5" "parseInt ''10'' = IntVal 10" "parseInt ''0'' = IntVal 0"
  "parseInt ''-1'' = IntVal (- 1)"
  by (simp_all add: parseInt_def is_space_def is_digit_def code_unit_def digits_value_def
      digit_value_def round_int_def)

text \<open>
  A Slice token on an array, for slice text \<open>a:b:c\<close> (or \<open>a:b\<close> when \<open>c\<close> is
  empty) whose components are missing or parse to integers.
\<close>

lemma slice_token_stepped_range:
  assumes "CHR '':'' \<notin> set a" and "CHR '':'' \<notin> set b" and "CHR '':'' \<notin> set c"
      and "(if a = [] then IntVal 0 else parseInt a) = IntVal start"
      and "(if b = [] then IntVal (int (length xs)) else parseInt b) = IntVal stop"
      and "(if c = [] then IntVal 1 else parseInt c) = IntVal step"
      and "0 < step" and "\<bar>start\<bar> < 2 ^ 53" and "\<bar>stop\<bar> < 2 ^ 53"
  shows "apply_input \<lparr>ttype = TSlice, tvalue = a @ '':'' @ b @ '':'' @ c\<rparr> (JArr xs) results =
           Some (results @ elements_in_range xs (slice_indices start stop step))
       \<and> (c = [] \<longrightarrow>
            apply_input \<lparr>ttype = TSlice, tvalue = a @ '':'' @ b\<rparr> (JArr xs) results =
              Some (results @ elements_in_range xs (slice_indices start stop step)))"
proof -
  note loop = slice_loop_positive_step[OF assms(7,8,9), of xs results]
  have p3: "nullish (slice_part [a, b, c] 0) (IntVal 0) = IntVal start"
    "nullish (slice_part [a, b, c] 1) (IntVal (int (length xs))) = IntVal stop"
    "nullish (slice_part [a, b, c] 2) (IntVal 1) = IntVal step"
    using assms(4,5,6) by (auto simp: slice_part_nullish split: if_splits)
  have three: "apply_input \<lparr>ttype = TSlice, tvalue = a @ '':'' @ b @ '':'' @ c\<rparr> (JArr xs) results =
      Some (results @ elements_in_range xs (slice_indices start stop step))"
    using loop split_colon_three[OF assms(1,2,3)] p3
    by (simp add: apply_input_def Let_def)
  have two: "apply_input \<lparr>ttype = TSlice, tvalue = a @ '':'' @ b\<rparr> (JArr xs) results =
      Some (results @ elements_in_range xs (slice_indices start stop step))" if "c = []"
  proof -
    have "nullish (slice_part [a, b] 0) (IntVal 0) = IntVal start"
      "nullish (slice_part [a, b] 1) (IntVal (int (length xs))) = IntVal stop"
      "nullish (slice_part [a, b] 2) (IntVal 1) = IntVal step"
      using assms(4,5,6) that by (auto simp: slice_part_nullish split: if_splits)
    with loop split_colon_two[OF assms(1,2)] show ?thesis
      by (simp add: apply_input_def Let_def)
  qed
  from three two show ?thesis by blast
qed

text \<open>
  Claim C4. Let the text of a Slice token be \<open>a:b:c\<close> (or \<open>a:b\<close>, with \<open>c\<close>
  empty), let a missing component stand for 0, the length of the array and 1, and let
  the components be integers inside the range where doubles are exact, with a positive
  step. Then the token adds to the results, in order, the elements of the array at the
  indices \<open>start\<close>, \<open>start + step\<close>, ... below \<open>stop\<close> that lie inside the array; the
  indices outside are skipped. The three slices of the specification follow:
  \<^verbatim>\<open>[1:3]\<close> and \<^verbatim>\<open>[::2]\<close> on \<^verbatim>\<open>[10,20,30,40,50]\<close> give \<^verbatim>\<open>[20,30]\<close> and
  \<^verbatim>\<open>[10,30,50]\<close>, and \<^verbatim>\<open>[5:10]\<close> on an array of three elements gives nothing.
\<close>

theorem slice_selects_stepped_range:
  "(\<forall>a b c start stop step xs results.
      CHR '':'' \<notin> set a \<and> CHR '':'' \<notin> set b \<and> CHR '':'' \<notin> set c
      \<and> (if a = [] then IntVal 0 else parseInt a) = IntVal start
      \<and> (if b = [] then IntVal (int (length xs)) else parseInt b) = IntVal stop
      \<and> (if c = [] then IntVal 1 else parseInt c) = IntVal step
      \<and> 0 < step \<and> \<bar>start\<bar> < 2 ^ 53 \<and> \<bar>stop\<bar> < 2 ^ 53
      \<longrightarrow>
        apply_input \<lparr>ttype = TSlice, tvalue = a @ '':'' @ b @ '':'' @ c\<rparr> (JArr xs) results =
          Some (results @ elements_in_range xs (slice_indices start stop step))
        \<and> (c = [] \<longrightarrow>
             apply_input \<lparr>ttype = TSlice, tvalue = a @ '':'' @ b\<rparr> (JArr xs) results =
               Some (results @ elements_in_range xs (slice_indices start stop step))))
   \<and> queryJsonPath (JArr [JNum (Finite 10), JNum (Finite 20), JNum (Finite 30),
        JNum (Finite 40), JNum (Finite 50)]) ''$[1:3]'' =
      Some (Inr [JNum (Finite 20), JNum (Finite 30)])
   \<and> queryJsonPath (JArr [JNum (Finite 10), JNum (Finite 20), JNum (Finite 30),
        JNum (Finite 40), JNum (Finite 50)]) ''$[::2]'' =
      Some (Inr [JNum (Finite 10), JNum (Finite 30), JNum (Finite 50)])
   \<and> (\<forall>x y z. queryJsonPath (JArr [x, y, z]) ''$[5:10]'' = Some (Inr []))"
proof -
  let ?xs = "[JNum (Finite 10), JNum (Finite 20), JNum (Finite 30), JNum (Finite 40),
    JNum (Finite 50)]"
  have i1: "slice_indices 1 3 1 = [1, 2]" by (simp add: slice_indices_def upt_rec)
  have i2: "slice_indices 0 5 2 = [0, 2, 4]" by (simp add: slice_indices_def upt_rec)
  have i3: "slice_indices 5 10 1 = [5, 6, 7, 8, 9]" by (simp add: slice_indices_def upt_rec)
  have t1: "tokenize ''[1:3]'' = [\<lparr>ttype = TSlice, tvalue = ''1:3''\<rparr>]"
    by (simp add: tokenize_def bracket_token_def)
  have t2: "tokenize ''[::2]'' = [\<lparr>ttype = TSlice, tvalue = ''::2''\<rparr>]"
    by (simp add: tokenize_def bracket_token_def)
  have t3: "tokenize ''[5:10]'' = [\<lparr>ttype = TSlice, tvalue = ''5:10''\<rparr>]"
    by (simp add: tokenize_def bracket_token_def)
  have e1: "apply_input \<lparr>ttype = TSlice, tvalue = ''1:3''\<rparr> (JArr ?xs) [] =
      Some [JNum (Finite 20), JNum (Finite 30)]"
    using slice_token_stepped_range[of "''1''" "''3''" "''''" 1 ?xs 3 1 "[]"]
    by (simp add: i1 elements_in_range_def)
  have e2: "apply_input \<lparr>ttype = TSlice, tvalue = ''::2''\<rparr> (JArr ?xs) [] =
      Some [JNum (Finite 10), JNum (Finite 30), JNum (Finite 50)]"
    using slice_token_stepped_range[of "''''" "''''" "''2''" 0 ?xs 5 2 "[]"]
    by (simp add: i2 elements_in_range_def)
  have e3: "apply_input \<lparr>ttype = TSlice, tvalue = ''5:10''\<rparr> (JArr [x, y, z]) [] = Some []"
    for x y z
    using slice_token_stepped_range[of "''5''" "''10''" "''''" 5 "[x, y, z]" 10 1 "[]"]
    by (simp add: i3 elements_in_range_def)
  have general: "\<forall>a b c start stop step xs results.
      CHR '':'' \<notin> set a \<and> CHR '':'' \<notin> set b \<and> CHR '':'' \<notin> set c
      \<and> (if a = [] then IntVal 0 else parseInt a) = IntVal start
      \<and> (if b = [] then IntVal (int (length xs)) else parseInt b) = IntVal stop
      \<and> (if c = [] then IntVal 1 else parseInt c) = IntVal step
      \<and> 0 < step \<and> \<bar>start\<bar> < 2 ^ 53 \<and> \<bar>stop\<bar> < 2 ^ 53
      \<longrightarrow>
        apply_input \<lparr>ttype = TSlice, tvalue = a @ '':'' @ b @ '':'' @ c\<rparr> (JArr xs) results =
          Some (results @ elements_in_range xs (slice_indices start stop step))
        \<and> (c = [] \<longrightarrow>
             apply_input \<lparr>ttype = TSlice, tvalue = a @ '':'' @ b\<rparr> (JArr xs) results =
               Some (results @ elements_in_range xs (slice_indices start stop step)))"
    using slice_token_stepped_range by blast
  have examples:
    "queryJsonPath (JArr ?xs) ''$[1:3]'' = Some (Inr [JNum (Finite 20), JNum (Finite 30)])"
    "queryJsonPath (JArr ?xs) ''$[::2]'' =
       Some (Inr [JNum (Finite 10), JNum (Finite 30), JNum (Finite 50)])"
    "\<forall>x y z. queryJsonPath (JArr [x, y, z]) ''$[5:10]'' = Some (Inr [])"
    by (simp_all add: queryJsonPath_def t1 t2 t3 applyToken_def e1 e2 e3)
  from general examples show ?thesis by blast
qed

theorem slice_selects_stepped_range_witness:
  "CHR '':'' \<notin> set ''1'' \<and> CHR '':'' \<notin> set '''' \<and> CHR '':'' \<notin> set ''2''
   \<and> parseInt ''1'' = IntVal 1 \<and> parseInt ''2'' = IntVal 2
   \<and> slice_indices 1 4 2 = [1, 3]
   \<and> apply_input \<lparr>ttype = TSlice, tvalue = ''1::2''\<rparr>
        (JArr [JStr ''a'', JStr ''b'', JStr ''c'', JStr ''d'']) [JNull] =
      Some [JNull, JStr ''b'', JStr ''d'']"
proof -
  have i: "slice_indices 1 4 2 = [1, 3]" by (simp add: slice_indices_def upt_rec)
  note inst = slice_selects_stepped_range[THEN conjunct1, rule_format,
      where a = "''1''" and b = "''''" and c = "''2''" and start = 1 and stop = 4 and step = 2
        and xs = "[JStr ''a'', JStr ''b'', JStr ''c'', JStr ''d'']" and results = "[JNull]"]
  from inst show ?thesis by (simp add: i elements_in_range_def)
qed

text \<open>The driver throws exactly when the expression does not start with the root marker.\<close>

lemma throws_iff_no_root_marker:
  "queryJsonPath data expression = Some (Inl InvalidExpression) \<longleftrightarrow>
   \<not> starts_with expression ''$''"
  by (cases "apply_tokens (tokenize (tl expression)) [data]") (simp_all add: queryJsonPath_def)

text \<open>
  Claim C9 says that the slice loop ends whenever the step is not zero. The loop of
  lines 200--202 only ever adds the step and tests \<^verbatim>\<open>si < end\<close>, so with a negative
  step and \<open>start < end\<close> it never ends either: the query \<^verbatim>\<open>$[0:5:-1]\<close> on an
  array does not return.
\<close>

theorem negative_step_never_returns:
  "queryJsonPath (JArr [JNum (Finite 10), JNum (Finite 20), JNum (Finite 30)]) ''$[0:5:-1]'' = None"
proof -
  have t: "tokenize ''[0:5:-1]'' = [\<lparr>ttype = TSlice, tvalue = ''0:5:-1''\<rparr>]"
    by (simp add: tokenize_def bracket_token_def)
  have s: "split_colon ''0:5:-1'' = [''0'', ''5'', ''-1'']"
    by (simp add: split_colon_def)
  have l: "slice_loop xs (IntVal 0) (IntVal 5) (IntVal (- 1)) [] = None" for xs
    by (rule slice_loop_nonpositive_step) simp_all
  show ?thesis
    by (simp add: queryJsonPath_def t applyToken_def apply_input_def s slice_part_def nullish_def l)
qed

text \<open>
  Claim C1 says that a query starting with the root marker always returns. The query
  \<^verbatim>\<open>$[0:1:0]\<close> on an array does not: the step 0 is taken as it is, and the loop
  of lines 200--202 stays at index 0 for ever.
\<close>

theorem zero_step_never_returns:
  "queryJsonPath (JArr [JNum (Finite 10), JNum (Finite 20), JNum (Finite 30)]) ''$[0:1:0]'' = None"
proof -
  have t: "tokenize ''[0:1:0]'' = [\<lparr>ttype = TSlice, tvalue = ''0:1:0''\<rparr>]"
    by (simp add: tokenize_def bracket_token_def)
  have s: "split_colon ''0:1:0'' = [''0'', ''1'', ''0'']"
    by (simp add: split_colon_def)
  have l: "slice_loop xs (IntVal 0) (IntVal 1) (IntVal 0) [] = None" for xs
    by (rule slice_loop_nonpositive_step) simp_all
  show ?thesis
    by (simp add: queryJsonPath_def t applyToken_def apply_input_def s slice_part_def nullish_def l)
qed

section \<open>Property lookup and recursive descent\<close>

text \<open>
  Claim C3. The example of the specification holds: \<^verbatim>\<open>$..name\<close> on
  \<^verbatim>\<open>{"a":{"name":"x","b":{"name":"y"}}}\<close> returns \<^verbatim>\<open>["x","y"]\<close>. The general
  statement does not: line 217 tests \<^verbatim>\<open>prop in record\<close>, which is also true of the
  names every object inherits from \<^verbatim>\<open>Object.prototype\<close>. On the empty object
  \<^verbatim>\<open>$..toString\<close> returns one value, the inherited function, where no object of the
  document has the key and the walk of the specification yields nothing.
\<close>

theorem recursive_descent_example_and_inherited:
  "queryJsonPath
     (JObj [(''a'', JObj [(''name'', JStr ''x''), (''b'', JObj [(''name'', JStr ''y'')])])])
     ''$..name'' = Some (Inr [JStr ''x'', JStr ''y''])
   \<and> queryJsonPath (JObj []) ''$..toString'' = Some (Inr [JFunction ''toString''])
   \<and> preorder_matches ''toString'' (JObj []) = []"
proof -
  have t: "tokenize ''..name'' = [\<lparr>ttype = TRecursive, tvalue = ''name''\<rparr>]"
    "tokenize ''..toString'' = [\<lparr>ttype = TRecursive, tvalue = ''toString''\<rparr>]"
    by (simp_all add: tokenize_def)
  show ?thesis
    by (simp add: queryJsonPath_def t applyToken_def apply_input_def push_property_def
        prototype_get_def prototype_functions_def)
qed

text \<open>
  Claim C7 says that every result is a value of the document. Line 163 reads
  \<^verbatim>\<open>record[token.value]\<close>, which follows the prototype chain: on the empty object
  \<^verbatim>\<open>$.toString\<close> returns the function \<^verbatim>\<open>Object.prototype.toString\<close>, which is no
  value of the document.
\<close>

theorem inherited_property_is_returned:
  "queryJsonPath (JObj []) ''$.toString'' = Some (Inr [JFunction ''toString''])
   \<and> JFunction ''toString'' \<notin> set (subvalues (JObj []))"
proof -
  have t: "tokenize ''.toString'' = [\<lparr>ttype = TProperty, tvalue = ''toString''\<rparr>]"
    by (simp add: tokenize_def)
  show ?thesis
    by (simp add: queryJsonPath_def t applyToken_def apply_input_def
        prototype_get_def prototype_functions_def)
qed

text \<open>
  For a name that is not inherited, the code walks as the specification says: the
  values collected are those of the pre-order walk, after what was collected before.
\<close>

lemma push_property_own:
  assumes "\<not> inherited key"
  shows "push_property (JObj kvs) key rs = rs @ (case map_of kvs key of Some v \<Rightarrow> [v] | None \<Rightarrow> [])"
    and "push_property JObjectPrototype key rs = rs"
  using assms by (auto simp: push_property_def inherited_def prototype_get_def split: option.splits)

lemma fold_collect:
  assumes "\<And>v rs. v \<in> set vs \<Longrightarrow> collectRecursive v key rs = rs @ preorder_matches key v"
  shows "fold (\<lambda>v acc. collectRecursive v key acc) vs rs =
         rs @ concat (map (\<lambda>v. preorder_matches key v) vs)"
  using assms by (induction vs arbitrary: rs) simp_all

lemma collectRecursive_preorder:
  "\<not> inherited key \<Longrightarrow> collectRecursive v key rs = rs @ preorder_matches key v"
proof (induction v key rs rule: collectRecursive.induct)
  case (1 kvs key results)
  have "fold (\<lambda>v acc. collectRecursive v key acc) (map snd kvs) acc =
      acc @ concat (map (\<lambda>v. preorder_matches key v) (map snd kvs))" for acc
    by (rule fold_collect) (use 1 in blast)
  then show ?case
    by (simp add: push_property_own(1)[OF "1.prems"])
next
  case (2 key results)
  then show ?case by (simp add: push_property_own(2))
next
  case (3 xs key results)
  have "fold (\<lambda>v acc. collectRecursive v key acc) xs acc =
      acc @ concat (map (\<lambda>v. preorder_matches key v) xs)" for acc
    by (rule fold_collect) (use 3 in blast)
  then show ?case by simp
qed simp_all

lemma subvalues_self: "v \<in> set (subvalues v)"
  by (cases v) simp_all

lemma subvalues_trans:
  "w \<in> set (subvalues v) \<Longrightarrow> u \<in> set (subvalues w) \<Longrightarrow> u \<in> set (subvalues v)"
proof (induction v rule: subvalues.induct)
  case (1 kvs)
  show ?case
  proof (cases "w = JObj kvs")
    case True
    with 1 show ?thesis by simp
  next
    case False
    with 1(2) obtain x where x: "x \<in> set (map snd kvs)" "w \<in> set (subvalues x)" by auto
    from 1(1)[OF x(1) x(2) 1(3)] x(1) show ?thesis by auto
  qed
next
  case (2 xs)
  show ?case
  proof (cases "w = JArr xs")
    case True
    with 2 show ?thesis by simp
  next
    case False
    with 2(2) obtain x where x: "x \<in> set xs" "w \<in> set (subvalues x)" by auto
    from 2(1)[OF x(1) x(2) 2(3)] x(1) show ?thesis by auto
  qed
qed auto

lemma subvalues_element: "x \<in> set xs \<Longrightarrow> x \<in> set (subvalues (JArr xs))"
  using subvalues_self[of x] by auto

lemma subvalues_member: "(k, x) \<in> set kvs \<Longrightarrow> x \<in> set (subvalues (JObj kvs))"
  using subvalues_self[of x] by force

lemma preorder_matches_subvalues: "set (preorder_matches key v) \<subseteq> set (subvalues v)"
proof (induction key v rule: preorder_matches.induct)
  case (1 p kvs)
  have "set (case map_of kvs p of Some v \<Rightarrow> [v] | None \<Rightarrow> []) \<subseteq> set (subvalues (JObj kvs))"
  proof (cases "map_of kvs p")
    case None
    then show ?thesis by simp
  next
    case (Some x)
    then have "(p, x) \<in> set kvs" by (rule map_of_SomeD)
    from subvalues_member[OF this] Some show ?thesis by simp
  qed
  moreover have "set (concat (map (\<lambda>v. preorder_matches p v) (map snd kvs))) \<subseteq>
      set (subvalues (JObj kvs))"
    using 1 by fastforce
  ultimately show ?case by simp
next
  case (2 p xs)
  then show ?case by fastforce
qed simp_all

text \<open>
  Where results come from. Every value one token adds for one input is a value nested in
  that input or a built-in value; when the token names no inherited property, it is a
  value nested in the input.
\<close>

lemma push_element_results: "set (push_element xs i rs) \<subseteq> set rs \<union> set xs"
  by (cases i) (auto simp: push_element_def)

lemma slice_loop_results:
  assumes "slice_loop xs si endv step rs = Some rs'"
  shows "set rs' \<subseteq> set rs \<union> set xs"
proof (rule slice_loop.raw_induct[where
      P = "\<lambda>input si endv step results y. set y \<subseteq> set results \<union> set input", OF _ assms])
  fix f input si endv step results y
  assume IH: "\<And>a b c d e z. f a b c d e = Some z \<Longrightarrow> set z \<subseteq> set e \<union> set a"
    and body: "(if intnum_less si endv
                then f input (intnum_add si step) endv step (push_element input si results)
                else Some results) = Some y"
  show "set y \<subseteq> set results \<union> set input"
  proof (cases "intnum_less si endv")
    case True
    with body have "f input (intnum_add si step) endv step (push_element input si results) = Some y"
      by simp
    from IH[OF this] push_element_results[of input si results] show ?thesis by blast
  next
    case False
    with body show ?thesis by auto
  qed
qed

lemma prototype_get_builtin:
  "is_builtin r \<Longrightarrow> prototype_get r key = Some v \<Longrightarrow> is_builtin v"
  by (auto simp: prototype_get_def split: if_splits)

lemma get_property_origin:
  assumes "get_property v key = Some x"
  shows "x \<in> set (subvalues v) \<or> is_builtin x"
proof (cases v)
  case (JObj kvs)
  show ?thesis
  proof (cases "map_of kvs key")
    case None
    with assms JObj have "prototype_get JObjectPrototype key = Some x" by simp
    from prototype_get_builtin[OF _ this] show ?thesis by simp
  next
    case (Some y)
    with assms JObj have "x = y" by simp
    with Some have "(key, x) \<in> set kvs" by (auto dest: map_of_SomeD)
    from subvalues_member[OF this] JObj show ?thesis by simp
  qed
next
  case JObjectPrototype
  with assms have "prototype_get JNull key = Some x" by simp
  from prototype_get_builtin[OF _ this] show ?thesis by simp
qed (use assms in simp_all)

lemma get_property_own:
  assumes "get_property v key = Some x" and "\<not> inherited key"
  shows "x \<in> set (subvalues v)"
proof (cases v)
  case (JObj kvs)
  with assms have "map_of kvs key = Some x"
    by (auto simp: prototype_get_def inherited_def split: option.splits)
  then have "(key, x) \<in> set kvs" by (rule map_of_SomeD)
  from subvalues_member[OF this] JObj show ?thesis by simp
next
  case JObjectPrototype
  with assms show ?thesis by (auto simp: prototype_get_def inherited_def)
qed (use assms in simp_all)

lemma push_property_origin:
  "set (push_property v key rs) \<subseteq> set rs \<union> set (subvalues v) \<union> Collect is_builtin"
  using get_property_origin[of v key]
  by (auto simp: push_property_def split: option.splits)

lemma fold_collect_origin:
  assumes "\<And>v rs. v \<in> set vs \<Longrightarrow>
      set (collectRecursive v key rs) \<subseteq> set rs \<union> set (subvalues v) \<union> Collect is_builtin"
  shows "set (fold (\<lambda>v acc. collectRecursive v key acc) vs rs) \<subseteq>
         set rs \<union> (\<Union>v\<in>set vs. set (subvalues v)) \<union> Collect is_builtin"
  using assms
proof (induction vs arbitrary: rs)
  case Nil
  then show ?case by simp
next
  case (Cons a vs)
  have a: "set (collectRecursive a key rs) \<subseteq> set rs \<union> set (subvalues a) \<union> Collect is_builtin"
    by (rule Cons.prems) simp
  have "set (fold (\<lambda>v acc. collectRecursive v key acc) vs (collectRecursive a key rs)) \<subseteq>
      set (collectRecursive a key rs) \<union> (\<Union>v\<in>set vs. set (subvalues v)) \<union> Collect is_builtin"
    by (rule Cons.IH) (use Cons.prems in simp)
  with a show ?case by auto
qed

lemma collectRecursive_origin:
  "set (collectRecursive v key rs) \<subseteq> set rs \<union> set (subvalues v) \<union> Collect is_builtin"
proof (induction v key rs rule: collectRecursive.induct)
  case (1 kvs key results)
  have "set (fold (\<lambda>v acc. collectRecursive v key acc) (map snd kvs) acc) \<subseteq>
      set acc \<union> (\<Union>v\<in>set (map snd kvs). set (subvalues v)) \<union> Collect is_builtin" for acc
    by (rule fold_collect_origin) (use 1 in blast)
  from this[of "push_property (JObj kvs) key results"]
    push_property_origin[of "JObj kvs" key results]
  show ?case by auto
next
  case (2 key results)
  then show ?case using push_property_origin[of JObjectPrototype key results] by simp
next
  case (3 xs key results)
  have "set (fold (\<lambda>v acc. collectRecursive v key acc) xs acc) \<subseteq>
      set acc \<union> (\<Union>v\<in>set xs. set (subvalues v)) \<union> Collect is_builtin" for acc
    by (rule fold_collect_origin) (use 3 in blast)
  from this[of results] show ?case by auto
qed auto

lemma children_subvalues: "children v \<subseteq> set (subvalues v)"
proof
  fix x
  assume x: "x \<in> children v"
  show "x \<in> set (subvalues v)"
  proof (cases v)
    case (JArr xs)
    with x have "x \<in> set xs" by (simp add: children_def)
    from subvalues_element[OF this] JArr show ?thesis by simp
  next
    case (JObj kvs)
    with x obtain k where "(k, x) \<in> set kvs" by (auto simp: children_def)
    from subvalues_member[OF this] JObj show ?thesis by simp
  qed (use x in \<open>simp_all add: children_def\<close>)
qed

lemma apply_input_children:
  assumes "apply_input t v rs = Some rs'"
    and "ttype t \<noteq> TProperty" and "ttype t \<noteq> TRecursive"
  shows "set rs' \<subseteq> set rs \<union> children v"
proof (cases "ttype t")
  case TIndex
  with assms(1) have "rs' = (case v of JArr xs \<Rightarrow> push_element xs (parseInt (tvalue t)) rs | _ \<Rightarrow> rs)"
    by (simp add: apply_input_def)
  then show ?thesis
    using push_element_results by (cases v) (auto simp: children_def)
next
  case TWildcard
  with assms(1) have "rs' = (case v of JArr xs \<Rightarrow> rs @ xs
      | _ \<Rightarrow> if is_plain_object v then rs @ object_values v else rs)"
    by (simp add: apply_input_def)
  then show ?thesis by (cases v) (auto simp: children_def)
next
  case TFilter
  with assms(1) have "rs' = (case v of
      JArr xs \<Rightarrow> rs @ filter (\<lambda>item. evaluateFilter item (tvalue t)) xs | _ \<Rightarrow> rs)"
    by (simp add: apply_input_def)
  then show ?thesis by (cases v) (auto simp: children_def)
next
  case TSlice
  show ?thesis
  proof (cases v)
    case (JArr xs)
    with assms(1) TSlice obtain a b c where "slice_loop xs a b c rs = Some rs'"
      by (simp add: apply_input_def Let_def)
    from slice_loop_results[OF this] JArr show ?thesis by (simp add: children_def)
  qed (use assms(1) TSlice in \<open>simp_all add: apply_input_def\<close>)
qed (use assms in simp_all)

lemma apply_input_origin:
  assumes "apply_input t v rs = Some rs'"
  shows "set rs' \<subseteq> set rs \<union> set (subvalues v) \<union> Collect is_builtin"
proof (cases "ttype t = TProperty \<or> ttype t = TRecursive")
  case False
  with apply_input_children[OF assms] children_subvalues[of v] show ?thesis by blast
next
  case True
  then show ?thesis
  proof
    assume p: "ttype t = TProperty"
    with assms have "rs' = (if is_plain_object v then
        (case get_property v (tvalue t) of Some val \<Rightarrow> rs @ [val] | None \<Rightarrow> rs) else rs)"
      by (simp add: apply_input_def)
    with get_property_origin[of v "tvalue t"] show ?thesis
      by (auto split: if_splits option.splits)
  next
    assume "ttype t = TRecursive"
    with assms have "rs' = collectRecursive v (tvalue t) rs" by (simp add: apply_input_def)
    with collectRecursive_origin[of v "tvalue t" rs] show ?thesis by simp
  qed
qed

lemma apply_input_own:
  assumes "apply_input t v rs = Some rs'" and "own_names_only t"
  shows "set rs' \<subseteq> set rs \<union> set (subvalues v)"
proof (cases "ttype t = TProperty \<or> ttype t = TRecursive")
  case False
  with apply_input_children[OF assms(1)] children_subvalues[of v] show ?thesis by blast
next
  case True
  with assms(2) have own: "\<not> inherited (tvalue t)" by (simp add: own_names_only_def)
  from True show ?thesis
  proof
    assume p: "ttype t = TProperty"
    with assms have "rs' = (if is_plain_object v then
        (case get_property v (tvalue t) of Some val \<Rightarrow> rs @ [val] | None \<Rightarrow> rs) else rs)"
      by (simp add: apply_input_def)
    with get_property_own[of v "tvalue t", OF _ own] show ?thesis
      by (auto split: if_splits option.splits)
  next
    assume "ttype t = TRecursive"
    with assms have "rs' = collectRecursive v (tvalue t) rs" by (simp add: apply_input_def)
    then have "rs' = rs @ preorder_matches (tvalue t) v"
      by (simp add: collectRecursive_preorder[OF own])
    with preorder_matches_subvalues[of "tvalue t" v] show ?thesis by auto
  qed
qed

text \<open>
  Over a whole query: every result is a value of the document or a built-in value, and
  a query whose tokens name no inherited property returns values of the document only.
  A query that starts with the root marker and whose slices are benign returns.
\<close>

lemma applyToken_loop_origin:
  "applyToken_loop inputs t rs = Some rs' \<Longrightarrow>
   set rs' \<subseteq> set rs \<union> (\<Union>v\<in>set inputs. set (subvalues v)) \<union> Collect is_builtin"
proof (induction inputs arbitrary: rs)
  case Nil
  then show ?case by simp
next
  case (Cons v inputs)
  from Cons.prems obtain mid where m: "apply_input t v rs = Some mid"
    and r: "applyToken_loop inputs t mid = Some rs'"
    by (auto split: option.splits)
  from apply_input_origin[OF m] Cons.IH[OF r] show ?case by auto
qed

lemma applyToken_loop_own:
  "own_names_only t \<Longrightarrow> applyToken_loop inputs t rs = Some rs' \<Longrightarrow>
   set rs' \<subseteq> set rs \<union> (\<Union>v\<in>set inputs. set (subvalues v))"
proof (induction inputs arbitrary: rs)
  case Nil
  then show ?case by simp
next
  case (Cons v inputs)
  from Cons.prems obtain mid where m: "apply_input t v rs = Some mid"
    and r: "applyToken_loop inputs t mid = Some rs'"
    by (auto split: option.splits)
  from apply_input_own[OF m Cons.prems(1)] Cons.IH[OF Cons.prems(1) r] show ?case by auto
qed

lemma builtin_subvalues: "is_builtin v \<Longrightarrow> subvalues v = [v]"
  by (cases v) simp_all

lemma from_document_subvalues:
  assumes "from_document D v" and "x \<in> set (subvalues v)"
  shows "from_document D x"
  using assms subvalues_trans[of v D x] builtin_subvalues[of v]
  by (auto simp: from_document_def)

lemma apply_tokens_origin:
  "\<forall>v\<in>set inputs. from_document D v \<Longrightarrow> apply_tokens ts inputs = Some rs \<Longrightarrow>
   \<forall>v\<in>set rs. from_document D v"
proof (induction ts arbitrary: inputs)
  case Nil
  then show ?case by simp
next
  case (Cons t ts)
  from Cons.prems(2) obtain mid where m: "applyToken inputs t = Some mid"
    and r: "apply_tokens ts mid = Some rs"
    by (auto split: option.splits)
  from m have sub: "set mid \<subseteq> (\<Union>v\<in>set inputs. set (subvalues v)) \<union> Collect is_builtin"
    using applyToken_loop_origin[of inputs t "[]" mid] by (simp add: applyToken_def)
  have "\<forall>x\<in>set mid. from_document D x"
  proof
    fix x
    assume "x \<in> set mid"
    with sub have "(\<exists>v\<in>set inputs. x \<in> set (subvalues v)) \<or> is_builtin x" by auto
    then show "from_document D x"
    proof
      assume "\<exists>v\<in>set inputs. x \<in> set (subvalues v)"
      then obtain v where v: "v \<in> set inputs" "x \<in> set (subvalues v)" by blast
      from Cons.prems(1) v(1) have "from_document D v" by simp
      from from_document_subvalues[OF this v(2)] show ?thesis .
    next
      assume "is_builtin x"
      then show ?thesis by (simp add: from_document_def)
    qed
  qed
  from Cons.IH[OF this r] show ?case .
qed

lemma apply_tokens_own:
  "\<forall>t\<in>set ts. own_names_only t \<Longrightarrow> set inputs \<subseteq> set (subvalues D) \<Longrightarrow>
   apply_tokens ts inputs = Some rs \<Longrightarrow> set rs \<subseteq> set (subvalues D)"
proof (induction ts arbitrary: inputs)
  case Nil
  then show ?case by simp
next
  case (Cons t ts)
  from Cons.prems(3) obtain mid where m: "applyToken inputs t = Some mid"
    and r: "apply_tokens ts mid = Some rs"
    by (auto split: option.splits)
  from Cons.prems(1) have own: "own_names_only t" by simp
  from m have "set mid \<subseteq> (\<Union>v\<in>set inputs. set (subvalues v))"
    using applyToken_loop_own[OF own, of inputs "[]" mid] by (simp add: applyToken_def)
  with Cons.prems(2) have "set mid \<subseteq> set (subvalues D)"
    using subvalues_trans[of _ D] by blast
  from Cons.IH[OF _ this r] Cons.prems(1) show ?case by simp
qed

lemma results_from_document:
  assumes "queryJsonPath D E = Some (Inr rs)"
  shows "\<forall>v\<in>set rs. v \<in> set (subvalues D) \<or> is_builtin v"
proof -
  from assms have "apply_tokens (tokenize (tl E)) [D] = Some rs"
    by (auto simp: queryJsonPath_def split: if_splits)
  from apply_tokens_origin[OF _ this, of D] subvalues_self[of D]
  show ?thesis by (simp add: from_document_def)
qed

lemma results_in_document:
  assumes "\<forall>t\<in>set (tokenize (tl E)). own_names_only t"
    and "queryJsonPath D E = Some (Inr rs)"
  shows "set rs \<subseteq> set (subvalues D)"
proof -
  from assms(2) have "apply_tokens (tokenize (tl E)) [D] = Some rs"
    by (auto simp: queryJsonPath_def split: if_splits)
  from apply_tokens_own[OF assms(1) _ this, of D] subvalues_self[of D]
  show ?thesis by simp
qed

lemma apply_input_returns:
  assumes "ttype t \<noteq> TSlice \<or> slice_benign t v"
  shows "\<exists>rs'. apply_input t v rs = Some rs'"
proof (cases "ttype t = TSlice")
  case False
  then show ?thesis by (cases "ttype t") (simp_all add: apply_input_def)
next
  case True
  show ?thesis
  proof (cases v)
    case (JArr xs)
    with assms True slice_loop_benign show ?thesis
      by (simp add: apply_input_def slice_benign_def Let_def)
  qed (use True in \<open>simp_all add: apply_input_def\<close>)
qed

lemma applyToken_loop_returns:
  assumes "\<forall>v\<in>set inputs. ttype t \<noteq> TSlice \<or> slice_benign t v"
  shows "\<exists>rs'. applyToken_loop inputs t rs = Some rs'"
  using assms
proof (induction inputs arbitrary: rs)
  case Nil
  then show ?case by simp
next
  case (Cons v inputs)
  from apply_input_returns[of t v rs] Cons.prems obtain mid where
    "apply_input t v rs = Some mid" by auto
  moreover from Cons.IH[of mid] Cons.prems obtain rs' where
    "applyToken_loop inputs t mid = Some rs'" by auto
  ultimately show ?case by simp
qed

lemma slice_benign_builtin: "is_builtin v \<Longrightarrow> slice_benign t v"
  by (cases v) (simp_all add: slice_benign_def)

lemma apply_tokens_returns:
  assumes "slices_benign ts D" and "\<forall>v\<in>set inputs. from_document D v"
  shows "\<exists>rs. apply_tokens ts inputs = Some rs"
  using assms
proof (induction ts arbitrary: inputs)
  case Nil
  then show ?case by simp
next
  case (Cons t ts)
  from Cons.prems(1) have t: "ttype t \<noteq> TSlice \<or> list_all (slice_benign t) (subvalues D)"
    and ts: "slices_benign ts D"
    by (simp_all add: slices_benign_def)
  have "\<forall>v\<in>set inputs. ttype t \<noteq> TSlice \<or> slice_benign t v"
    using t Cons.prems(2) slice_benign_builtin[of _ t]
    by (auto simp: from_document_def list_all_iff)
  from applyToken_loop_returns[OF this, of "[]"] obtain mid where
    m: "applyToken inputs t = Some mid" by (auto simp: applyToken_def)
  have "\<forall>v\<in>set mid. from_document D v"
    using apply_tokens_origin[of inputs D "[t]" mid] Cons.prems(2) m by simp
  from Cons.IH[OF ts this] m show ?case by simp
qed

lemma query_returns:
  assumes "starts_with E ''$''" and "slices_benign (tokenize (tl E)) D"
  shows "\<exists>rs. queryJsonPath D E = Some (Inr rs)"
proof -
  have "\<forall>v\<in>set [D]. from_document D v"
    using subvalues_self[of D] by (simp add: from_document_def)
  from apply_tokens_returns[OF assms(2) this] assms(1) show ?thesis
    by (auto simp: queryJsonPath_def)
qed

end
